theory Spec2Isabelle
  imports Main "HOL-Library.Word" "HOL-Library.Monad_Syntax" "HOL-Library.Multiset"
begin

unbundle bit_operations_syntax

section \<open>Data model of ginetflow.c\<close>

text \<open>
  The embedding follows \<^verbatim>\<open>ginetflow.c\<close> function by function.  Machine integers
  are words of the width the C declaration gives them.  The host is taken to be
  little-endian (the packed header structs are read with plain loads and then passed
  through \<^verbatim>\<open>GUINT16_FROM_BE\<close> / \<^verbatim>\<open>GINT32_FROM_BE\<close>, which swap bytes on such a host).

  A frame is handed over as a pointer and a length.  The pointer is modelled by the
  list of bytes that may legally be read through it, the length is the separate
  \<^verbatim>\<open>guint\<close> argument.  A read outside the byte list has no defined behaviour in C; in
  the model every function that reads returns an option, and \<open>None\<close> stands for
  such a read.
\<close>

type_synonym guint8 = "8 word"
type_synonym guint16 = "16 word"
type_synonym guint32 = "32 word"
type_synonym guint64 = "64 word"

text \<open>The two values the code ever stores in the \<^verbatim>\<open>family\<close> field: the zero of the
  zero-initialised local packet, and \<^verbatim>\<open>G_SOCKET_FAMILY_IPV4\<close>.\<close>

datatype gsocket_family = G_SOCKET_FAMILY_INVALID | G_SOCKET_FAMILY_IPV4

text \<open>The anonymous struct \<^verbatim>\<open>tuple\<close> inside \<^verbatim>\<open>struct _GInetFlow\<close>; the two
  \<^verbatim>\<open>guint32 [4]\<close> arrays are lists of four words.\<close>

record flow_tuple =
  protocol :: guint16
  lower_port :: guint16
  upper_port :: guint16
  lower_ip :: "guint32 list"
  upper_ip :: "guint32 list"

record GInetFlow =
  timestamp :: guint64
  family :: gsocket_family
  hash :: guint16
  tuple :: flow_tuple
  context_p :: nat

text \<open>\<^verbatim>\<open>GInetFlow packet = {};\<close> and the object \<^verbatim>\<open>g_object_new\<close> returns: all zero.\<close>

definition zero_tuple :: flow_tuple where
  "zero_tuple = \<lparr>protocol = 0, lower_port = 0, upper_port = 0,
     lower_ip = [0, 0, 0, 0], upper_ip = [0, 0, 0, 0]\<rparr>"

definition zero_flow :: GInetFlow where
  "zero_flow = \<lparr>timestamp = 0, family = G_SOCKET_FAMILY_INVALID, hash = 0,
     tuple = zero_tuple, context_p = 0\<rparr>"

subsection \<open>Reading the packed headers\<close>

definition rd8 :: "guint8 list \<Rightarrow> nat \<Rightarrow> guint8 option" where
  "rd8 data off = (if off < length data then Some (data ! off) else None)"

text \<open>A 16-bit and a 32-bit load on the little-endian host.\<close>

definition rd16 :: "guint8 list \<Rightarrow> nat \<Rightarrow> guint16 option" where
  "rd16 data off = do {
     b0 \<leftarrow> rd8 data off;
     b1 \<leftarrow> rd8 data (off + 1);
     Some (ucast b0 OR push_bit 8 (ucast b1))
   }"

definition rd32 :: "guint8 list \<Rightarrow> nat \<Rightarrow> guint32 option" where
  "rd32 data off = do {
     b0 \<leftarrow> rd8 data off;
     b1 \<leftarrow> rd8 data (off + 1);
     b2 \<leftarrow> rd8 data (off + 2);
     b3 \<leftarrow> rd8 data (off + 3);
     Some (ucast b0 OR push_bit 8 (ucast b1) OR push_bit 16 (ucast b2)
           OR push_bit 24 (ucast b3))
   }"

definition GUINT16_FROM_BE :: "guint16 \<Rightarrow> guint16" where
  "GUINT16_FROM_BE v = push_bit 8 v OR drop_bit 8 v"

definition GINT32_FROM_BE :: "guint32 \<Rightarrow> guint32" where
  "GINT32_FROM_BE v =
     push_bit 24 v OR push_bit 8 (v AND 0xff00) OR (drop_bit 8 v AND 0xff00)
     OR drop_bit 24 v"

definition ETH_PROTOCOL_IP :: guint16 where "ETH_PROTOCOL_IP = 0x0800"
definition IP_PROTOCOL_TCP :: guint8 where "IP_PROTOCOL_TCP = 6"

text \<open>\<^verbatim>\<open>sizeof\<close> of the packed structs.\<close>

definition sizeof_ethernet_hdr_t :: nat where "sizeof_ethernet_hdr_t = 14"
definition sizeof_ip_hdr_t :: nat where "sizeof_ip_hdr_t = 20"
definition sizeof_tcp_hdr_t :: nat where "sizeof_tcp_hdr_t = 20"

section \<open>The parser\<close>

text \<open>Each parser function mutates \<^verbatim>\<open>*f\<close> and returns a \<^verbatim>\<open>gboolean\<close>; the model
  returns the flag together with the updated flow.\<close>

definition flow_parse_tcp ::
  "GInetFlow \<Rightarrow> guint8 list \<Rightarrow> guint32 \<Rightarrow> (bool \<times> GInetFlow) option" where
  "flow_parse_tcp f data len =
     (if len < of_nat sizeof_tcp_hdr_t then Some (False, f)
      else do {
        src \<leftarrow> rd16 data 0;
        dst \<leftarrow> rd16 data 2;
        let sport = GUINT16_FROM_BE src;
        let dport = GUINT16_FROM_BE dst;
        Some (True,
          if sport < dport
          then f\<lparr>tuple := (tuple f)\<lparr>lower_port := sport, upper_port := dport\<rparr>\<rparr>
          else f\<lparr>tuple := (tuple f)\<lparr>upper_port := sport, lower_port := dport\<rparr>\<rparr>)
      })"

definition flow_parse_ipv4 ::
  "GInetFlow \<Rightarrow> guint8 list \<Rightarrow> guint32 \<Rightarrow> (bool \<times> GInetFlow) option" where
  "flow_parse_ipv4 f data len =
     (if len < of_nat sizeof_ip_hdr_t then Some (False, f)
      else do {
        saddr \<leftarrow> rd32 data 12;
        daddr \<leftarrow> rd32 data 16;
        let sip = GINT32_FROM_BE saddr;
        let dip = GINT32_FROM_BE daddr;
        let f1 =
          (if sip < dip
           then f\<lparr>tuple := (tuple f)\<lparr>lower_ip := (lower_ip (tuple f))[0 := saddr],
                                      upper_ip := (upper_ip (tuple f))[0 := daddr]\<rparr>\<rparr>
           else f\<lparr>tuple := (tuple f)\<lparr>upper_ip := (upper_ip (tuple f))[0 := saddr],
                                      lower_ip := (lower_ip (tuple f))[0 := daddr]\<rparr>\<rparr>);
        proto \<leftarrow> rd8 data 9;
        let f2 = f1\<lparr>tuple := (tuple f1)\<lparr>protocol := ucast proto\<rparr>\<rparr>;
        if proto = IP_PROTOCOL_TCP
        then flow_parse_tcp f2 (drop sizeof_ip_hdr_t data) (len - of_nat sizeof_ip_hdr_t)
        else Some (False, f2)
      })"

definition flow_parse ::
  "GInetFlow \<Rightarrow> guint8 list \<Rightarrow> guint32 \<Rightarrow> guint16 \<Rightarrow> (bool \<times> GInetFlow) option" where
  "flow_parse f data len hsh = do {
     ep \<leftarrow> rd16 data 12;
     if GUINT16_FROM_BE ep = ETH_PROTOCOL_IP
     then flow_parse_ipv4 (f\<lparr>family := G_SOCKET_FAMILY_IPV4, hash := hsh\<rparr>)
            (drop sizeof_ethernet_hdr_t data) (len - of_nat sizeof_ethernet_hdr_t)
     else Some (False, f)
   }"

section \<open>Hashing and comparing flows\<close>

text \<open>One pass of the inner loop of \<^verbatim>\<open>crc16\<close>: the register is promoted to 32 bits,
  shifted, conditionally combined with the polynomial and masked back to 16 bits.\<close>

definition crc16_step :: "guint16 \<Rightarrow> guint32 \<Rightarrow> nat \<Rightarrow> guint16" where
  "crc16_step iv b j =
     ucast ((push_bit 1 (ucast iv :: guint32)
             XOR (if ((drop_bit 15 (ucast iv :: guint32) AND 1) XOR (drop_bit j b AND 1)) \<noteq> 0
                  then 0x1021 else 0))
            AND 0xffff)"

text \<open>\<^verbatim>\<open>for (j=7; j>=0; j--)\<close>: \<open>crc16_bits n\<close> runs \<open>j = n - 1, \<dots>, 0\<close>.\<close>

fun crc16_bits :: "nat \<Rightarrow> guint32 \<Rightarrow> guint16 \<Rightarrow> guint16" where
  "crc16_bits 0 b iv = iv"
| "crc16_bits (Suc j) b iv = crc16_bits j b (crc16_step iv b j)"

text \<open>\<^verbatim>\<open>for (i=7; i>=0; i--)\<close>: \<open>crc16_bytes n\<close> runs \<open>i = n - 1, \<dots>, 0\<close>.\<close>

fun crc16_bytes :: "nat \<Rightarrow> guint64 \<Rightarrow> guint16 \<Rightarrow> guint16" where
  "crc16_bytes 0 p iv = iv"
| "crc16_bytes (Suc i) p iv =
     crc16_bytes i p (crc16_bits 8 (ucast (drop_bit (i * 8) p AND 0xff)) iv)"

definition crc16 :: "guint16 \<Rightarrow> guint64 \<Rightarrow> guint16" where
  "crc16 iv p = crc16_bytes 8 p iv"

text \<open>\<^verbatim>\<open>flow_hash\<close> returns the hash and may store it in \<^verbatim>\<open>f->hash\<close>; the model returns
  the value and the updated flow.  The progress character it prints is not modelled.\<close>

definition tuple_hash :: "flow_tuple \<Rightarrow> guint16" where
  "tuple_hash t =
     (let src_crc = crc16 0xffff (push_bit 32 (ucast (lower_ip t ! 0)) OR ucast (lower_ip t ! 1));
          src_crc = crc16 src_crc (push_bit 32 (ucast (lower_ip t ! 2)) OR ucast (lower_ip t ! 3));
          src_crc = crc16 src_crc (push_bit 48 (ucast (lower_port t)));
          dst_crc = crc16 0xffff (push_bit 32 (ucast (upper_ip t ! 0)) OR ucast (upper_ip t ! 1));
          dst_crc = crc16 dst_crc (push_bit 32 (ucast (upper_ip t ! 2)) OR ucast (upper_ip t ! 3));
          dst_crc = crc16 dst_crc (push_bit 48 (ucast (upper_port t)));
          prot_crc = crc16 0xffff (push_bit 56 (ucast (protocol t)))
      in src_crc XOR dst_crc XOR prot_crc)"

definition flow_hash :: "GInetFlow \<Rightarrow> guint16 \<times> GInetFlow" where
  "flow_hash f =
     (if hash f \<noteq> 0 then (hash f, f)
      else (tuple_hash (tuple f), f\<lparr>hash := tuple_hash (tuple f)\<rparr>))"

text \<open>\<^verbatim>\<open>memcmp\<close> over the 16 bytes of an address array is zero exactly when the four
  words agree.\<close>

definition flow_compare :: "GInetFlow \<Rightarrow> GInetFlow \<Rightarrow> bool" where
  "flow_compare f1 f2 =
     (if protocol (tuple f1) \<noteq> protocol (tuple f2) then False
      else if lower_port (tuple f1) \<noteq> lower_port (tuple f2) then False
      else if upper_port (tuple f1) \<noteq> upper_port (tuple f2) then False
      else if upper_ip (tuple f1) \<noteq> upper_ip (tuple f2) then False
      else if lower_ip (tuple f1) \<noteq> lower_ip (tuple f2) then False
      else True)"

section \<open>The flow table\<close>

text \<open>
  \<^verbatim>\<open>GInetFlow\<close> objects live on the heap and are shared between the hash table and the
  recency list, so the model keeps a store: \<open>objs\<close> holds every object the table has
  allocated, and a pointer is an index into it.

  \<^verbatim>\<open>GHashTable\<close> and \<^verbatim>\<open>GList\<close> belong to GLib.  The hash table is modelled by its
  nodes in insertion order, each with the hash GLib stored for it when it was inserted
  and the pointer that serves as key and value.  GLib asks the hash function of the
  table for the hash of a key, replaces the reserved values 0 and 1 by 2
  (\<open>real_hash\<close>), and reports a node as found when its stored hash equals that value
  and the equality function of the table accepts the stored key.  The table of this
  program is created with \<^verbatim>\<open>flow_hash\<close> and \<^verbatim>\<open>flow_compare\<close>; the 16-bit result of
  \<^verbatim>\<open>flow_hash\<close> reaches GLib zero-extended to a \<^verbatim>\<open>guint\<close>.  The number of nodes is not
  bounded in the model.
\<close>

type_synonym ghash_node = "guint32 \<times> nat"

record GInetFlowTable =
  objs :: "GInetFlow list"
  table :: "ghash_node list"
  list :: "nat list"
  hits :: guint64
  misses :: guint64

definition real_hash :: "guint32 \<Rightarrow> guint32" where
  "real_hash h = (if h < 2 then 2 else h)"

definition node_matches :: "GInetFlow list \<Rightarrow> guint32 \<Rightarrow> GInetFlow \<Rightarrow> ghash_node \<Rightarrow> bool" where
  "node_matches os hv key n = (fst n = hv \<and> flow_compare (os ! snd n) key)"

text \<open>The lookup hashes the key through \<^verbatim>\<open>flow_hash\<close>, which may write the key's
  \<^verbatim>\<open>hash\<close> field; the updated key is returned with the result.\<close>

definition g_hash_table_lookup ::
  "GInetFlow list \<Rightarrow> ghash_node list \<Rightarrow> GInetFlow \<Rightarrow> nat option \<times> GInetFlow" where
  "g_hash_table_lookup os nodes key =
     (let (hv, key') = flow_hash key
      in (map_option snd (find (node_matches os (real_hash (ucast hv)) key') nodes), key'))"

text \<open>\<^verbatim>\<open>g_hash_table_replace (table, flow, flow)\<close>: the pointer \<open>p\<close> is key and value.
  A matching node gets the new key and value, otherwise a node is added.  Hashing
  the key may write its \<^verbatim>\<open>hash\<close> field, and the key is an object of the store.\<close>

fun replace_node :: "GInetFlow list \<Rightarrow> guint32 \<Rightarrow> nat \<Rightarrow> ghash_node list \<Rightarrow> ghash_node list" where
  "replace_node os hv p [] = [(hv, p)]"
| "replace_node os hv p (n # ns) =
     (if node_matches os hv (os ! p) n then (hv, p) # ns else n # replace_node os hv p ns)"

definition g_hash_table_replace ::
  "GInetFlow list \<Rightarrow> ghash_node list \<Rightarrow> nat \<Rightarrow> GInetFlow list \<times> ghash_node list" where
  "g_hash_table_replace os nodes p =
     (let (hv, key') = flow_hash (os ! p);
          os' = os[p := key']
      in (os', replace_node os' (real_hash (ucast hv)) p nodes))"

definition g_hash_table_size :: "ghash_node list \<Rightarrow> guint32" where
  "g_hash_table_size nodes = of_nat (length nodes)"

definition g_list_remove :: "nat list \<Rightarrow> nat \<Rightarrow> nat list" where
  "g_list_remove l p = remove1 p l"

definition g_list_prepend :: "nat list \<Rightarrow> nat \<Rightarrow> nat list" where
  "g_list_prepend l p = p # l"

text \<open>\<^verbatim>\<open>g_inet_flow_table_new\<close>: a zeroed object whose hash table is empty.\<close>

definition g_inet_flow_table_new :: GInetFlowTable where
  "g_inet_flow_table_new = \<lparr>objs = [], table = [], list = [], hits = 0, misses = 0\<rparr>"

text \<open>
  \<^verbatim>\<open>g_inet_flow_get_full\<close>.  The result is \<open>None\<close> when the parser read outside the
  frame buffer; otherwise it is the returned pointer (\<open>None\<close> for \<^verbatim>\<open>NULL\<close>) and the
  table after the call.  \<open>now\<close> is what \<^verbatim>\<open>get_time_us\<close> would return during the call.
\<close>

definition g_inet_flow_get_full ::
  "GInetFlowTable \<Rightarrow> guint8 list \<Rightarrow> guint32 \<Rightarrow> guint16 \<Rightarrow> guint64 \<Rightarrow> guint64
     \<Rightarrow> (nat option \<times> GInetFlowTable) option" where
  "g_inet_flow_get_full tbl frame len hsh ts now = do {
     (ok, packet) \<leftarrow> flow_parse zero_flow frame len hsh;
     if \<not> ok then Some (None, tbl)
     else
       let (found, packet) = g_hash_table_lookup (objs tbl) (table tbl) packet;
           stamp = (if ts \<noteq> 0 then ts else now)
       in case found of
            Some flow \<Rightarrow>
              let l = g_list_remove (list tbl) flow;
                  l = g_list_prepend l flow;
                  h = hits tbl + 1;
                  os = (objs tbl)[flow := (objs tbl ! flow)\<lparr>timestamp := stamp\<rparr>]
              in Some (Some flow, tbl\<lparr>objs := os, list := l, hits := h\<rparr>)
          | None \<Rightarrow>
              let flow = length (objs tbl);
                  os = objs tbl @ [zero_flow\<lparr>family := family packet, hash := hash packet,
                                             tuple := tuple packet\<rparr>];
                  (os, nodes) = g_hash_table_replace os (table tbl) flow;
                  l = g_list_prepend (list tbl) flow;
                  m = misses tbl + 1;
                  os = os[flow := (os ! flow)\<lparr>timestamp := stamp\<rparr>]
              in Some (Some flow, tbl\<lparr>objs := os, table := nodes, list := l, misses := m\<rparr>)
   }"

definition g_inet_flow_get ::
  "GInetFlowTable \<Rightarrow> guint8 list \<Rightarrow> guint32 \<Rightarrow> guint64
     \<Rightarrow> (nat option \<times> GInetFlowTable) option" where
  "g_inet_flow_get tbl frame len now = g_inet_flow_get_full tbl frame len 0 0 now"

text \<open>\<^verbatim>\<open>g_inet_flow_foreach\<close> calls \<open>func\<close> on every element of the recency list, from
  its head on; the effect of the callbacks is a state \<open>'s\<close> threaded through.\<close>

definition g_inet_flow_foreach ::
  "GInetFlowTable \<Rightarrow> (nat \<Rightarrow> 'u \<Rightarrow> 's \<Rightarrow> 's) \<Rightarrow> 'u \<Rightarrow> 's \<Rightarrow> 's" where
  "g_inet_flow_foreach tbl func user_data s = fold (\<lambda>p. func p user_data) (list tbl) s"

section \<open>Property accessors\<close>

text \<open>What \<^verbatim>\<open>get_property\<close> leaves in the \<^verbatim>\<open>GValue\<close>; \<open>GUnset\<close> when the property id is
  not known and the value is left alone.  A string may be \<^verbatim>\<open>NULL\<close>.\<close>

datatype gvalue = GUInt guint32 | GUInt64 guint64 | GString "string option" | GUnset

definition FLOW_HASH :: nat where "FLOW_HASH = 1"
definition FLOW_PROTOCOL :: nat where "FLOW_PROTOCOL = 2"
definition FLOW_LPORT :: nat where "FLOW_LPORT = 3"
definition FLOW_UPORT :: nat where "FLOW_UPORT = 4"
definition FLOW_LIP :: nat where "FLOW_LIP = 5"
definition FLOW_UIP :: nat where "FLOW_UIP = 6"

definition TABLE_SIZE :: nat where "TABLE_SIZE = 1"
definition TABLE_HITS :: nat where "TABLE_HITS = 2"
definition TABLE_MISSES :: nat where "TABLE_MISSES = 3"

text \<open>\<^verbatim>\<open>(guint8 *) flow->tuple.lower_ip\<close>: the bytes of the word array as they lie in the
  memory of the little-endian host.\<close>

definition word_bytes :: "guint32 \<Rightarrow> guint8 list" where
  "word_bytes w = [ucast w, ucast (drop_bit 8 w), ucast (drop_bit 16 w), ucast (drop_bit 24 w)]"

definition ip_bytes :: "guint32 list \<Rightarrow> guint8 list" where
  "ip_bytes ws = concat (map word_bytes ws)"

text \<open>GLib's \<^verbatim>\<open>g_inet_address_new_from_bytes\<close> copies four bytes for an IPv4 address and
  returns \<^verbatim>\<open>NULL\<close> for a family that is not valid; \<^verbatim>\<open>g_inet_address_to_string\<close> prints
  an IPv4 address in dotted decimal and returns \<^verbatim>\<open>NULL\<close> for \<^verbatim>\<open>NULL\<close>.\<close>

fun decimal :: "nat \<Rightarrow> string" where
  "decimal n =
     (if n < 10 then [char_of (48 + n)] else decimal (n div 10) @ [char_of (48 + n mod 10)])"

definition g_inet_address_new_from_bytes ::
  "guint8 list \<Rightarrow> gsocket_family \<Rightarrow> guint8 list option" where
  "g_inet_address_new_from_bytes bytes fam =
     (case fam of G_SOCKET_FAMILY_IPV4 \<Rightarrow> Some (take 4 bytes)
      | G_SOCKET_FAMILY_INVALID \<Rightarrow> None)"

fun dotted :: "guint8 list \<Rightarrow> string" where
  "dotted [] = []"
| "dotted [b] = decimal (unat b)"
| "dotted (b # bs) = decimal (unat b) @ ''.'' @ dotted bs"

definition g_inet_address_to_string :: "guint8 list option \<Rightarrow> string option" where
  "g_inet_address_to_string gaddress = map_option dotted gaddress"

definition g_inet_flow_get_property :: "GInetFlow \<Rightarrow> nat \<Rightarrow> gvalue" where
  "g_inet_flow_get_property flow prop_id =
     (if prop_id = FLOW_HASH then GUInt (ucast (hash flow))
      else if prop_id = FLOW_PROTOCOL then GUInt (ucast (protocol (tuple flow)))
      else if prop_id = FLOW_LPORT then GUInt (ucast (lower_port (tuple flow)))
      else if prop_id = FLOW_UPORT then GUInt (ucast (upper_port (tuple flow)))
      else if prop_id = FLOW_LIP then
        GString (g_inet_address_to_string
          (g_inet_address_new_from_bytes (ip_bytes (lower_ip (tuple flow))) (family flow)))
      else if prop_id = FLOW_UIP then
        GString (g_inet_address_to_string
          (g_inet_address_new_from_bytes (ip_bytes (lower_ip (tuple flow))) (family flow)))
      else GUnset)"

definition g_inet_flow_table_get_property :: "GInetFlowTable \<Rightarrow> nat \<Rightarrow> gvalue" where
  "g_inet_flow_table_get_property tbl prop_id =
     (if prop_id = TABLE_SIZE then GUInt64 (ucast (g_hash_table_size (table tbl)))
      else if prop_id = TABLE_HITS then GUInt64 (hits tbl)
      else if prop_id = TABLE_MISSES then GUInt64 (misses tbl)
      else GUnset)"

section \<open>Notions used in the statements\<close>

text \<open>The reverse-direction counterpart of an Ethernet/IPv4/TCP frame: the two IPv4
  addresses (frame bytes 26-29 and 30-33) change places, and so do the two ports
  (bytes 34-35 and 36-37).  It is used for frames of at least 38 bytes; no shorter
  frame parses.\<close>

definition reverse_direction :: "guint8 list \<Rightarrow> guint8 list" where
  "reverse_direction fr =
     fr[26 := fr ! 30, 27 := fr ! 31, 28 := fr ! 32, 29 := fr ! 33,
        30 := fr ! 26, 31 := fr ! 27, 32 := fr ! 28, 33 := fr ! 29,
        34 := fr ! 36, 35 := fr ! 37, 36 := fr ! 34, 37 := fr ! 35]"

text \<open>No node of the hash table points outside the store.  The new table has this
  property and every call keeps it, so a pointer taken from a node is always the index
  of an object; the statements about tables assume it or start from the new table.\<close>

definition table_wf :: "GInetFlowTable \<Rightarrow> bool" where
  "table_wf tbl = list_all (\<lambda>n. snd n < length (objs tbl)) (table tbl)"

text \<open>What decides a lookup: the hash GLib probes with for a parsed packet, and its
  tuple; and the same pair for every node of the table.\<close>

definition lookup_key :: "GInetFlow \<Rightarrow> guint32 \<times> flow_tuple" where
  "lookup_key packet = (real_hash (ucast (fst (flow_hash packet))), tuple packet)"

definition node_key :: "GInetFlow list \<Rightarrow> ghash_node \<Rightarrow> guint32 \<times> flow_tuple" where
  "node_key os n = (fst n, tuple (os ! snd n))"

definition table_keys :: "GInetFlowTable \<Rightarrow> (guint32 \<times> flow_tuple) list" where
  "table_keys tbl = map (node_key (objs tbl)) (table tbl)"

definition lookup_ptr :: "GInetFlowTable \<Rightarrow> GInetFlow \<Rightarrow> nat option" where
  "lookup_ptr tbl packet =
     map_option snd (find (\<lambda>n. node_key (objs tbl) n = lookup_key packet) (table tbl))"

text \<open>One call of \<^verbatim>\<open>g_inet_flow_get_full\<close> with its arguments and the clock reading,
  and a sequence of calls on one table.\<close>

record call =
  c_frame :: "guint8 list"
  c_len :: guint32
  c_hash :: guint16
  c_timestamp :: guint64
  c_now :: guint64

definition do_call :: "GInetFlowTable \<Rightarrow> call \<Rightarrow> (nat option \<times> GInetFlowTable) option" where
  "do_call tbl c =
     g_inet_flow_get_full tbl (c_frame c) (c_len c) (c_hash c) (c_timestamp c) (c_now c)"

fun run :: "GInetFlowTable \<Rightarrow> call list \<Rightarrow> GInetFlowTable option" where
  "run tbl [] = Some tbl"
| "run tbl (c # cs) = (case do_call tbl c of None \<Rightarrow> None | Some (r, tbl') \<Rightarrow> run tbl' cs)"

text \<open>The packet a call's frame parses to, when it parses.\<close>

definition parsed :: "call \<Rightarrow> GInetFlow option" where
  "parsed c =
     (case flow_parse zero_flow (c_frame c) (c_len c) (c_hash c) of
        Some (True, packet) \<Rightarrow> Some packet | _ \<Rightarrow> None)"

text \<open>A call without its times: what a second observation of the same flow repeats.\<close>

definition observation :: "call \<Rightarrow> guint8 list \<times> guint32 \<times> guint16" where
  "observation c = (c_frame c, c_len c, c_hash c)"

text \<open>The traversal with a visitor that records each record it is shown.\<close>

definition traversal :: "GInetFlowTable \<Rightarrow> nat list" where
  "traversal tbl = g_inet_flow_foreach tbl (\<lambda>p u acc. acc @ [p]) () []"

text \<open>The two outcomes of a call whose frame parses: the table after a hit on the
  object \<open>p\<close>, and the table after a miss.  \<open>stamp_of\<close> is the C expression
  \<^verbatim>\<open>timestamp ?: get_time_us ()\<close>.\<close>

definition stamp_of :: "guint64 \<Rightarrow> guint64 \<Rightarrow> guint64" where
  "stamp_of ts now = (if ts \<noteq> 0 then ts else now)"

definition new_flow :: "GInetFlow \<Rightarrow> guint64 \<Rightarrow> GInetFlow" where
  "new_flow packet st = zero_flow\<lparr>timestamp := st, family := family packet,
     hash := fst (flow_hash packet), tuple := tuple packet\<rparr>"

definition hit_table :: "GInetFlowTable \<Rightarrow> nat \<Rightarrow> guint64 \<Rightarrow> GInetFlowTable" where
  "hit_table tbl p st = tbl\<lparr>objs := (objs tbl)[p := (objs tbl ! p)\<lparr>timestamp := st\<rparr>],
     list := p # remove1 p (list tbl), hits := hits tbl + 1\<rparr>"

definition miss_table :: "GInetFlowTable \<Rightarrow> GInetFlow \<Rightarrow> guint64 \<Rightarrow> GInetFlowTable" where
  "miss_table tbl packet st = tbl\<lparr>objs := objs tbl @ [new_flow packet st],
     table := table tbl @ [(fst (lookup_key packet), length (objs tbl))],
     list := length (objs tbl) # list tbl, misses := misses tbl + 1\<rparr>"

text \<open>The tuple and the lookup key of a call whose frame parses.\<close>

definition tuple_of :: "call \<Rightarrow> flow_tuple" where
  "tuple_of c = tuple (the (parsed c))"

definition key_of :: "call \<Rightarrow> guint32 \<times> flow_tuple" where
  "key_of c = lookup_key (the (parsed c))"

text \<open>The table answers lookups consistently and has counted its misses: no node points
  outside the store, there are as many nodes as objects, and \<open>misses\<close> is their number.\<close>

definition counted :: "GInetFlowTable \<Rightarrow> bool" where
  "counted t \<longleftrightarrow> table_wf t \<and> misses t = of_nat (length (table t))
      \<and> length (objs t) = length (table t)"

text \<open>Every node carries the hash of its record: the stored hash is the \<^verbatim>\<open>hash\<close> field of
  the object the node points to, with 0 and 1 replaced by 2.\<close>

definition hashes_cached :: "GInetFlowTable \<Rightarrow> bool" where
  "hashes_cached t \<longleftrightarrow> table_wf t
      \<and> list_all (\<lambda>n. fst n = real_hash (ucast (hash (objs t ! snd n)))) (table t)"

subsection \<open>The bitwise CRC the hash is described by\<close>

text \<open>The CRC-16 with polynomial \<open>0x1021\<close> over a sequence of message bits: the bit
  that leaves the register at the top is compared with the message bit, and the
  polynomial is added when they differ.\<close>

definition crc_ccitt_bit :: "guint16 \<Rightarrow> bool \<Rightarrow> guint16" where
  "crc_ccitt_bit r b = (if bit r 15 \<noteq> b then push_bit 1 r XOR 0x1021 else push_bit 1 r)"

definition crc_ccitt :: "guint16 \<Rightarrow> bool list \<Rightarrow> guint16" where
  "crc_ccitt r bs = foldl crc_ccitt_bit r bs"

text \<open>The bits of a 64-bit value, most significant first.\<close>

definition msb_first :: "guint64 \<Rightarrow> bool list" where
  "msb_first p = map (bit p) (rev [0..<64])"

text \<open>The message bits of the three CRC computations: the \<open>n\<close> low bits of a word, most
  significant first; the four address words followed by the port and 48 zero bits (the
  port is shifted to the top of a 64-bit value); and the low byte of the protocol
  followed by 56 zero bits.  \<open>spec_hash\<close> is the exclusive or of the three CRCs, each
  started from \<open>0xFFFF\<close>.\<close>

definition word_bits :: "nat \<Rightarrow> 'a::len word \<Rightarrow> bool list" where
  "word_bits n w = map (bit w) (rev [0..<n])"

definition endpoint_message :: "guint32 list \<Rightarrow> guint16 \<Rightarrow> bool list" where
  "endpoint_message ip port =
     word_bits 32 (ip ! 0) @ word_bits 32 (ip ! 1) @ word_bits 32 (ip ! 2) @ word_bits 32 (ip ! 3)
     @ word_bits 16 port @ replicate 48 False"

definition protocol_message :: "guint16 \<Rightarrow> bool list" where
  "protocol_message proto = word_bits 8 proto @ replicate 56 False"

definition spec_hash :: "flow_tuple \<Rightarrow> guint16" where
  "spec_hash t =
     crc_ccitt 0xffff (endpoint_message (lower_ip t) (lower_port t))
     XOR crc_ccitt 0xffff (endpoint_message (upper_ip t) (upper_port t))
     XOR crc_ccitt 0xffff (protocol_message (protocol t))"

subsection \<open>Example frames\<close>

text \<open>Ethernet header with ethertype \<open>0x0800\<close>, an IPv4 header from 10.0.0.1 to
  10.0.0.2 with the given protocol and last source-address byte, and a TCP header
  from port 443 to port 51000.\<close>

definition ex_eth :: "guint8 list" where
  "ex_eth = [0,0,0,0,0,1, 0,0,0,0,0,2, 8, 0]"

definition ex_ip :: "guint8 \<Rightarrow> guint8 \<Rightarrow> guint8 list" where
  "ex_ip proto a = [0x45,0,0,40, 0,0,0,0, 64,proto,0,0, 10,0,0,a, 10,0,0,2]"

definition ex_tcp :: "guint8 list" where
  "ex_tcp = [1,0xBB, 0xC7,0x38, 0,0,0,0, 0,0,0,0, 0x50,0,0,0, 0,0,0,0]"

definition ex_frame :: "guint8 \<Rightarrow> guint8 list" where
  "ex_frame a = ex_eth @ ex_ip 6 a @ ex_tcp"

definition ex_udp_frame :: "guint8 list" where
  "ex_udp_frame = ex_eth @ ex_ip 17 1 @ ex_tcp"

definition ex_call :: "guint8 \<Rightarrow> guint16 \<Rightarrow> call" where
  "ex_call a h = \<lparr>c_frame = ex_frame a, c_len = 54, c_hash = h, c_timestamp = 0, c_now = 1000\<rparr>"

text \<open>What the first example frame parses to, with the hash the caller passed.\<close>

definition ex_tuple :: flow_tuple where
  "ex_tuple = \<lparr>protocol = 6, lower_port = 443, upper_port = 51000,
     lower_ip = [0x0100000A, 0, 0, 0], upper_ip = [0x0200000A, 0, 0, 0]\<rparr>"

definition ex_packet :: "guint16 \<Rightarrow> GInetFlow" where
  "ex_packet h = \<lparr>timestamp = 0, family = G_SOCKET_FAMILY_IPV4, hash = h, tuple = ex_tuple,
     context_p = 0\<rparr>"

text \<open>The frames from 10.0.0.3 and from 10.0.0.4 to 10.0.0.2, parsed.\<close>

definition ex_tuple_b :: flow_tuple where
  "ex_tuple_b = \<lparr>protocol = 6, lower_port = 443, upper_port = 51000,
     lower_ip = [0x0200000A, 0, 0, 0], upper_ip = [0x0300000A, 0, 0, 0]\<rparr>"

definition ex_tuple_c :: flow_tuple where
  "ex_tuple_c = \<lparr>protocol = 6, lower_port = 443, upper_port = 51000,
     lower_ip = [0x0200000A, 0, 0, 0], upper_ip = [0x0400000A, 0, 0, 0]\<rparr>"

definition ex_packet_b :: "guint16 \<Rightarrow> GInetFlow" where
  "ex_packet_b h = \<lparr>timestamp = 0, family = G_SOCKET_FAMILY_IPV4, hash = h, tuple = ex_tuple_b,
     context_p = 0\<rparr>"

definition ex_packet_c :: "guint16 \<Rightarrow> GInetFlow" where
  "ex_packet_c h = \<lparr>timestamp = 0, family = G_SOCKET_FAMILY_IPV4, hash = h, tuple = ex_tuple_c,
     context_p = 0\<rparr>"

section \<open>Byte order\<close>

lemma ff00: "(0xff00::guint32) = push_bit 8 (mask 8)"
  by (simp add: mask_eq_exp_minus_1 push_bit_eq_mult)

lemma bit_GINT32_FROM_BE:
  "bit (GINT32_FROM_BE w) n =
     (if n < 8 then bit w (24 + n) else if n < 16 then bit w (8 + n)
      else if n < 24 then bit w (n - 8) else n < 32 \<and> bit w (n - 24))"
  unfolding GINT32_FROM_BE_def ff00
  by (auto simp: bit_simps dest: bit_imp_le_length)

lemma GINT32_FROM_BE_inv: "GINT32_FROM_BE (GINT32_FROM_BE v) = v"
proof (rule bit_word_eqI)
  fix n assume "n < LENGTH(32)"
  then consider "n < 8" | "8 \<le> n" "n < 16" | "16 \<le> n" "n < 24" | "24 \<le> n" "n < 32"
    by fastforce
  then show "bit (GINT32_FROM_BE (GINT32_FROM_BE v)) n = bit v n"
    by cases (auto simp: bit_GINT32_FROM_BE)
qed

lemma GINT32_FROM_BE_inj: "GINT32_FROM_BE a = GINT32_FROM_BE b \<Longrightarrow> a = b"
  by (metis GINT32_FROM_BE_inv)

lemma GUINT16_FROM_BE_inv: "GUINT16_FROM_BE (GUINT16_FROM_BE v) = v"
  unfolding GUINT16_FROM_BE_def
  by (rule bit_word_eqI) (auto simp: bit_simps)

lemma GUINT16_FROM_BE_inj: "GUINT16_FROM_BE a = GUINT16_FROM_BE b \<Longrightarrow> a = b"
  by (metis GUINT16_FROM_BE_inv)

section \<open>The parser and the direction of a frame\<close>

lemmas sizeofs = sizeof_ethernet_hdr_t_def sizeof_ip_hdr_t_def sizeof_tcp_hdr_t_def

lemma tuple_update_order:
  "t\<lparr>upper_ip := a, lower_ip := b\<rparr> = t\<lparr>lower_ip := b, upper_ip := a\<rparr>"
  "t\<lparr>upper_port := c, lower_port := d\<rparr> = t\<lparr>lower_port := d, upper_port := c\<rparr>"
  by (cases t; simp)+

lemma rd_reverse:
  assumes "38 \<le> length fr"
  shows "rd16 (reverse_direction fr) 12 = rd16 fr 12"
    and "rd32 (drop 14 (reverse_direction fr)) 12 = rd32 (drop 14 fr) 16"
    and "rd32 (drop 14 (reverse_direction fr)) 16 = rd32 (drop 14 fr) 12"
    and "rd8 (drop 14 (reverse_direction fr)) 9 = rd8 (drop 14 fr) 9"
    and "rd16 (drop 20 (drop 14 (reverse_direction fr))) 0 = rd16 (drop 20 (drop 14 fr)) 2"
    and "rd16 (drop 20 (drop 14 (reverse_direction fr))) 2 = rd16 (drop 20 (drop 14 fr)) 0"
  using assms by (simp_all add: rd16_def rd32_def rd8_def reverse_direction_def)

lemma flow_parse_tcp_swap:
  assumes "rd16 d' 0 = rd16 d 2" "rd16 d' 2 = rd16 d 0"
  shows "flow_parse_tcp f d' len = flow_parse_tcp f d len"
proof (cases "rd16 d 0")
  case None
  then show ?thesis using assms by (simp add: flow_parse_tcp_def split: Option.bind_split)
next
  case s: (Some s)
  show ?thesis
  proof (cases "rd16 d 2")
    case None
    then show ?thesis using assms s by (simp add: flow_parse_tcp_def)
  next
    case (Some t)
    then show ?thesis using assms s
      by (auto simp: flow_parse_tcp_def Let_def tuple_update_order dest: GUINT16_FROM_BE_inj)
  qed
qed

lemma flow_parse_ipv4_swap:
  assumes "rd32 d' 12 = rd32 d 16" "rd32 d' 16 = rd32 d 12" "rd8 d' 9 = rd8 d 9"
    and "rd16 (drop 20 d') 0 = rd16 (drop 20 d) 2" "rd16 (drop 20 d') 2 = rd16 (drop 20 d) 0"
  shows "flow_parse_ipv4 f d' len = flow_parse_ipv4 f d len"
proof (cases "rd32 d 12")
  case None
  then show ?thesis using assms by (simp add: flow_parse_ipv4_def split: Option.bind_split)
next
  case s: (Some s)
  show ?thesis
  proof (cases "rd32 d 16")
    case None
    then show ?thesis using assms s by (simp add: flow_parse_ipv4_def)
  next
    case (Some t)
    have tcp: "flow_parse_tcp g (drop 20 d') l = flow_parse_tcp g (drop 20 d) l" for g l
      using assms(4,5) by (rule flow_parse_tcp_swap)
    consider "GINT32_FROM_BE s < GINT32_FROM_BE t" | "GINT32_FROM_BE t < GINT32_FROM_BE s" | "s = t"
      using GINT32_FROM_BE_inj[of s t] by fastforce
    then show ?thesis
      using assms(1,2,3) s Some
      by cases (auto simp: flow_parse_ipv4_def Let_def sizeofs tcp tuple_update_order split: Option.bind_split)
  qed
qed

lemma flow_parse_reverse:
  assumes "38 \<le> length fr"
  shows "flow_parse f (reverse_direction fr) len h = flow_parse f fr len h"
  unfolding flow_parse_def sizeofs
  by (simp add: rd_reverse(1)[OF assms]
      flow_parse_ipv4_swap[OF rd_reverse(2,3,4,5,6)[OF assms]] cong: if_cong)

lemma rd8_Some_length: "rd8 d i = Some b \<Longrightarrow> i < length d"
  by (simp add: rd8_def split: if_splits)

lemma rd16_Some_length: "rd16 d i = Some b \<Longrightarrow> i + 1 < length d"
  by (auto simp: rd16_def dest!: rd8_Some_length split: Option.bind_splits)

lemma flow_parse_tcp_True_length:
  "flow_parse_tcp f d len = Some (True, g) \<Longrightarrow> 4 \<le> length d"
  by (auto simp: flow_parse_tcp_def dest!: rd16_Some_length split: Option.bind_splits if_splits)

lemma flow_parse_ipv4_True_length:
  "flow_parse_ipv4 f d len = Some (True, g) \<Longrightarrow> 24 \<le> length d"
  by (auto simp: flow_parse_ipv4_def Let_def sizeofs dest!: flow_parse_tcp_True_length split: Option.bind_splits if_splits)

lemma flow_parse_True_length:
  "flow_parse f d len h = Some (True, g) \<Longrightarrow> 38 \<le> length d"
  by (auto simp: flow_parse_def Let_def sizeofs dest!: flow_parse_ipv4_True_length split: Option.bind_splits if_splits)

section \<open>One call on a table\<close>

lemma flow_compare_iff: "flow_compare f1 f2 \<longleftrightarrow> tuple f1 = tuple f2"
  by (cases "tuple f1"; cases "tuple f2") (auto simp: flow_compare_def)

lemma flow_hash_simps:
  "tuple (snd (flow_hash f)) = tuple f"
  "family (snd (flow_hash f)) = family f"
  "hash (snd (flow_hash f)) = fst (flow_hash f)"
  by (simp_all add: flow_hash_def)

lemma flow_hash_new:
  "flow_hash (zero_flow\<lparr>family := fam, hash := fst (flow_hash K), tuple := tuple K\<rparr>)
     = (fst (flow_hash K), zero_flow\<lparr>family := fam, hash := fst (flow_hash K), tuple := tuple K\<rparr>)"
  by (simp add: flow_hash_def)

lemma node_matches_iff:
  "node_matches os (real_hash (ucast (fst (flow_hash K)))) K' n \<longleftrightarrow>
     fst n = fst (lookup_key K) \<and> tuple (os ! snd n) = tuple K'"
  by (simp add: node_matches_def lookup_key_def flow_compare_iff)

lemma lookup_eq:
  "g_hash_table_lookup (objs t) (table t) K = (lookup_ptr t K, snd (flow_hash K))"
proof -
  have "node_matches (objs t) (real_hash (ucast (fst (flow_hash K)))) (snd (flow_hash K))
          = (\<lambda>n. node_key (objs t) n = lookup_key K)"
    by (rule ext) (auto simp: node_matches_iff flow_hash_simps node_key_def lookup_key_def)
  then show ?thesis
    by (simp add: g_hash_table_lookup_def lookup_ptr_def split_beta)
qed

lemma replace_node_append:
  "\<forall>n\<in>set ns. \<not> node_matches os hv k n \<Longrightarrow> os ! p = k \<Longrightarrow>
     replace_node os hv p ns = ns @ [(hv, p)]"
  by (induction ns) auto

lemma replace_miss:
  assumes wf: "table_wf t" and miss: "lookup_ptr t K = None"
  shows "g_hash_table_replace
           (objs t @ [zero_flow\<lparr>family := fam, hash := fst (flow_hash K), tuple := tuple K\<rparr>])
           (table t) (length (objs t))
         = (objs t @ [zero_flow\<lparr>family := fam, hash := fst (flow_hash K), tuple := tuple K\<rparr>],
            table t @ [(fst (lookup_key K), length (objs t))])"
proof -
  let ?new = "zero_flow\<lparr>family := fam, hash := fst (flow_hash K), tuple := tuple K\<rparr>"
  let ?os = "objs t @ [?new]"
  have no: "\<forall>n\<in>set (table t). \<not> node_matches ?os (real_hash (ucast (fst (flow_hash K)))) ?new n"
  proof
    fix n assume n: "n \<in> set (table t)"
    then have "snd n < length (objs t)" using wf by (simp add: table_wf_def list_all_iff)
    moreover have "node_key (objs t) n \<noteq> lookup_key K"
      using miss n by (cases n) (auto simp: lookup_ptr_def find_None_iff)
    ultimately show "\<not> node_matches ?os (real_hash (ucast (fst (flow_hash K)))) ?new n"
      by (auto simp: node_matches_iff node_key_def nth_append lookup_key_def)
  qed
  show ?thesis
    by (simp add: g_hash_table_replace_def flow_hash_new replace_node_append[OF no] lookup_key_def)
qed

lemma get_full_eq:
  assumes parse: "flow_parse zero_flow frame len h = Some (True, K)" and wf: "table_wf t"
  shows "g_inet_flow_get_full t frame len h ts now =
     Some (case lookup_ptr t K of
             Some p \<Rightarrow> (Some p, hit_table t p (stamp_of ts now))
           | None \<Rightarrow> (Some (length (objs t)), miss_table t K (stamp_of ts now)))"
proof (cases "lookup_ptr t K")
  case None
  show ?thesis
    by (simp add: g_inet_flow_get_full_def parse lookup_eq None flow_hash_simps
        replace_miss[OF wf None] g_list_prepend_def miss_table_def stamp_of_def new_flow_def Let_def)
next
  case (Some p)
  show ?thesis
    by (simp add: g_inet_flow_get_full_def parse lookup_eq Some
        g_list_prepend_def g_list_remove_def hit_table_def stamp_of_def Let_def)
qed

section \<open>Evaluating the parser\<close>

lemmas parse_defs = flow_parse_def flow_parse_ipv4_def flow_parse_tcp_def rd16_def rd8_def
  rd32_def GUINT16_FROM_BE_def GINT32_FROM_BE_def ETH_PROTOCOL_IP_def IP_PROTOCOL_TCP_def
  sizeofs zero_flow_def zero_tuple_def

lemmas ex_defs = ex_frame_def ex_udp_frame_def ex_eth_def ex_ip_def ex_tcp_def

section \<open>Hits and misses\<close>

lemma table_wf_new: "table_wf g_inet_flow_table_new"
  by (simp add: table_wf_def g_inet_flow_table_new_def)

lemma table_wf_hit: "table_wf t \<Longrightarrow> table_wf (hit_table t p st)"
  by (simp add: table_wf_def hit_table_def)

lemma table_wf_miss: "table_wf t \<Longrightarrow> table_wf (miss_table t K st)"
  by (auto simp: table_wf_def miss_table_def list_all_iff)

lemma node_key_stamp: "node_key (os[p := (os ! p)\<lparr>timestamp := st\<rparr>]) n = node_key os n"
  by (cases "p < length os") (auto simp: node_key_def nth_list_update list_update_beyond)

lemma table_keys_hit: "table_keys (hit_table t p st) = table_keys t"
  by (simp add: table_keys_def hit_table_def node_key_stamp)

lemma lookup_ptr_hit: "lookup_ptr (hit_table t p st) K = lookup_ptr t K"
  by (simp add: lookup_ptr_def hit_table_def node_key_stamp)

lemma find_append:
  "find P (xs @ ys) = (case find P xs of None \<Rightarrow> find P ys | Some x \<Rightarrow> Some x)"
  by (induction xs) auto

lemma node_key_miss:
  "snd n < length (objs t) \<Longrightarrow> node_key (objs (miss_table t K st)) n = node_key (objs t) n"
  by (simp add: node_key_def miss_table_def nth_append)

lemma node_key_miss_new:
  "node_key (objs (miss_table t K st)) (fst (lookup_key K), length (objs t)) = lookup_key K"
  by (simp add: node_key_def miss_table_def new_flow_def lookup_key_def)

lemma table_keys_miss:
  assumes "table_wf t"
  shows "table_keys (miss_table t K st) = table_keys t @ [lookup_key K]"
proof -
  have "map (node_key (objs (miss_table t K st))) (table t) = map (node_key (objs t)) (table t)"
    using assms by (intro map_cong refl node_key_miss) (simp add: table_wf_def list_all_iff)
  then show ?thesis
    using node_key_miss_new[of t K st] by (simp add: table_keys_def) (simp add: miss_table_def)
qed

lemma find_map_key:
  "find (\<lambda>n. f n = k) ns = None \<longleftrightarrow> k \<notin> set (map f ns)"
  by (auto simp: find_None_iff)

lemma lookup_ptr_None: "lookup_ptr t K = None \<longleftrightarrow> lookup_key K \<notin> set (table_keys t)"
  by (simp add: lookup_ptr_def table_keys_def find_map_key)

lemma lookup_ptr_Some:
  assumes "lookup_ptr t K = Some p" "table_wf t"
  shows "p < length (objs t)" "tuple (objs t ! p) = tuple K"
proof -
  from assms(1) obtain n where n: "find (\<lambda>n. node_key (objs t) n = lookup_key K) (table t) = Some n"
    and p: "p = snd n" by (auto simp: lookup_ptr_def)
  from n have "n \<in> set (table t)" "node_key (objs t) n = lookup_key K"
    by (auto simp: find_Some_iff in_set_conv_nth)
  then show "p < length (objs t)" "tuple (objs t ! p) = tuple K"
    using assms(2) p by (auto simp: table_wf_def list_all_iff node_key_def lookup_key_def)
qed

lemma lookup_ptr_miss:
  assumes "table_wf t"
  shows "lookup_ptr (miss_table t K st) K' =
     (case lookup_ptr t K' of Some q \<Rightarrow> Some q
      | None \<Rightarrow> if lookup_key K' = lookup_key K then Some (length (objs t)) else None)"
proof -
  have eq: "find (\<lambda>n. node_key (objs (miss_table t K st)) n = k) (table t)
          = find (\<lambda>n. node_key (objs t) n = k) (table t)" for k
    using assms by (intro find_cong refl) (simp add: table_wf_def list_all_iff node_key_miss)
  have "table (miss_table t K st) = table t @ [(fst (lookup_key K), length (objs t))]"
    by (simp add: miss_table_def)
  then show ?thesis
    using node_key_miss_new[of t K st]
    by (auto simp: lookup_ptr_def find_append eq split: option.splits)
qed

lemma flow_parse_tcp_hash: "flow_parse_tcp f d l = Some (b, g) \<Longrightarrow> hash g = hash f"
  by (auto simp: flow_parse_tcp_def Let_def split: if_splits Option.bind_splits)

lemma flow_parse_ipv4_hash: "flow_parse_ipv4 f d l = Some (b, g) \<Longrightarrow> hash g = hash f"
  by (auto simp: flow_parse_ipv4_def Let_def split: if_splits Option.bind_splits
      dest!: flow_parse_tcp_hash)

lemma flow_parse_hash: "flow_parse f d l h = Some (True, g) \<Longrightarrow> hash g = h"
  by (auto simp: flow_parse_def split: if_splits Option.bind_splits dest!: flow_parse_ipv4_hash)

lemma ex_parse: "flow_parse zero_flow (ex_frame 1) 54 h = Some (True, ex_packet h)"
  by (simp add: ex_defs parse_defs ex_packet_def ex_tuple_def)

lemma retouch:
  assumes parse: "flow_parse zero_flow frame len hsh = Some (True, K)"
      and wf: "table_wf tbl"
      and call: "g_inet_flow_get_full tbl frame len hsh ts now = Some (r, tbl1)"
  shows "\<exists>p. r = Some p \<and> lookup_ptr tbl1 K = Some p \<and> table_wf tbl1 \<and> p < length (objs tbl1)
           \<and> tuple (objs tbl1 ! p) = tuple K"
proof (cases "lookup_ptr tbl K")
  case None
  then have "r = Some (length (objs tbl))" "tbl1 = miss_table tbl K (stamp_of ts now)"
    using call get_full_eq[OF parse wf, of ts now] by simp_all
  then show ?thesis
    using None wf by (simp add: lookup_ptr_miss table_wf_miss) (simp add: miss_table_def new_flow_def)
next
  case (Some p)
  then have "r = Some p" "tbl1 = hit_table tbl p (stamp_of ts now)"
    using call get_full_eq[OF parse wf, of ts now] by simp_all
  then show ?thesis
    using Some wf lookup_ptr_Some[OF Some wf]
    by (simp add: lookup_ptr_hit table_wf_hit) (simp add: hit_table_def)
qed

text \<open>
  C1.  Direction invariance.  When a frame parses, the frame with source and
  destination exchanged (addresses and ports) parses to the same packet, field for
  field; on any table a call with the reversed frame has the result of the call with
  the frame itself; and after a call with the frame, a call with the reversed frame
  (same hash argument) is a hit on the record that the first call returned.
\<close>

theorem direction_invariance:
  assumes parse: "flow_parse zero_flow frame len hsh = Some (True, K)"
      and wf: "table_wf tbl"
      and call: "g_inet_flow_get_full tbl frame len hsh ts now = Some (r, tbl1)"
  shows "flow_parse zero_flow (reverse_direction frame) len hsh = Some (True, K)
     \<and> g_inet_flow_get_full tbl (reverse_direction frame) len hsh ts now = Some (r, tbl1)
     \<and> (\<exists>p. r = Some p \<and> p < length (objs tbl1) \<and>
           g_inet_flow_get_full tbl1 (reverse_direction frame) len hsh ts' now'
             = Some (Some p, hit_table tbl1 p (stamp_of ts' now')))"
proof -
  have len: "38 \<le> length frame" using parse by (rule flow_parse_True_length)
  have rev: "flow_parse zero_flow (reverse_direction frame) len hsh = Some (True, K)"
    using parse by (simp add: flow_parse_reverse[OF len])
  have same: "g_inet_flow_get_full tbl (reverse_direction frame) len hsh ts now = Some (r, tbl1)"
    using call by (simp add: g_inet_flow_get_full_def flow_parse_reverse[OF len])
  from retouch[OF parse wf call] obtain p where
    p: "r = Some p" "lookup_ptr tbl1 K = Some p" "table_wf tbl1" "p < length (objs tbl1)" by blast
  have "g_inet_flow_get_full tbl1 (reverse_direction frame) len hsh ts' now'
          = Some (Some p, hit_table tbl1 p (stamp_of ts' now'))"
    by (simp add: get_full_eq[OF rev p(3)] p(2))
  with rev same p show ?thesis by simp
qed

theorem direction_invariance_witness:
  "flow_parse zero_flow (reverse_direction (ex_frame 1)) 54 5 = Some (True, ex_packet 5)
   \<and> flow_parse zero_flow (ex_frame 1) 54 5 = Some (True, ex_packet 5)
   \<and> table_wf g_inet_flow_table_new
   \<and> g_inet_flow_get_full g_inet_flow_table_new (ex_frame 1) 54 5 0 1000
        = Some (Some 0, miss_table g_inet_flow_table_new (ex_packet 5) 1000)
   \<and> g_inet_flow_get_full (miss_table g_inet_flow_table_new (ex_packet 5) 1000)
         (reverse_direction (ex_frame 1)) 54 5 0 2000
        = Some (Some 0, hit_table (miss_table g_inet_flow_table_new (ex_packet 5) 1000) 0 2000)"
proof -
  have none: "lookup_ptr g_inet_flow_table_new (ex_packet 5) = None"
    by (simp add: lookup_ptr_def g_inet_flow_table_new_def)
  have call: "g_inet_flow_get_full g_inet_flow_table_new (ex_frame 1) 54 5 0 1000
        = Some (Some 0, miss_table g_inet_flow_table_new (ex_packet 5) 1000)"
    by (simp add: get_full_eq[OF ex_parse table_wf_new] none stamp_of_def)
       (simp add: g_inet_flow_table_new_def)
  show ?thesis
    using direction_invariance[OF ex_parse table_wf_new call, of 0 2000] ex_parse[of 5]
      table_wf_new call
    by (simp add: stamp_of_def)
qed

lemma lookup_key_parse:
  assumes "flow_parse zero_flow frame len hsh = Some (True, K)"
  shows "lookup_key K =
    (real_hash (ucast (if hsh \<noteq> 0 then hsh else tuple_hash (tuple K))), tuple K)"
  using flow_parse_hash[OF assms] by (auto simp: lookup_key_def flow_hash_def)

lemma get_full_cases:
  assumes parse: "flow_parse zero_flow frame len hsh = Some (True, K)" and wf: "table_wf tbl"
  shows "\<exists>p tbl1. g_inet_flow_get_full tbl frame len hsh ts now = Some (Some p, tbl1)
     \<and> (p < length (objs tbl) \<longleftrightarrow> lookup_key K \<in> set (table_keys tbl))
     \<and> (hits tbl1 = hits tbl + 1 \<and> misses tbl1 = misses tbl
            \<longleftrightarrow> lookup_key K \<in> set (table_keys tbl))
     \<and> (misses tbl1 = misses tbl + 1 \<and> hits tbl1 = hits tbl
            \<longleftrightarrow> lookup_key K \<notin> set (table_keys tbl))"
proof (cases "lookup_ptr tbl K")
  case None
  then show ?thesis
    using get_full_eq[OF parse wf, of ts now] lookup_ptr_None[of tbl K]
    by (simp add: miss_table_def)
next
  case (Some p)
  then show ?thesis
    using get_full_eq[OF parse wf, of ts now] lookup_ptr_None[of tbl K] lookup_ptr_Some(1)[OF Some wf]
    by (simp add: hit_table_def)
qed

text \<open>
  C2 (as amended).  A call whose frame parses returns a record.  It is a hit (the
  record existed already, \<open>hits\<close> goes up by one) exactly when some node of the hash
  table carries both the hash this lookup probes with and a record with the parsed
  tuple; otherwise it is a miss (\<open>misses\<close> goes up by one).  The hash probed with is the
  caller's when that is not zero and the CRC hash of the tuple otherwise, with 0 and 1
  replaced by 2.  After the call, a second frame looked up with the same hash argument
  resolves to the same record exactly when its tuple is the same: frames with
  different tuples get different records whatever the hash passed.
\<close>

theorem hit_iff_hash_and_key_match:
  assumes parse: "flow_parse zero_flow frame len hsh = Some (True, K)" and wf: "table_wf tbl"
  shows "\<exists>p tbl1. g_inet_flow_get_full tbl frame len hsh ts now = Some (Some p, tbl1)
     \<and> lookup_key K
          = (real_hash (ucast (if hsh \<noteq> 0 then hsh else tuple_hash (tuple K))), tuple K)
     \<and> (p < length (objs tbl) \<longleftrightarrow> lookup_key K \<in> set (table_keys tbl))
     \<and> (hits tbl1 = hits tbl + 1 \<and> misses tbl1 = misses tbl
            \<longleftrightarrow> lookup_key K \<in> set (table_keys tbl))
     \<and> (misses tbl1 = misses tbl + 1 \<and> hits tbl1 = hits tbl
            \<longleftrightarrow> lookup_key K \<notin> set (table_keys tbl))
     \<and> (\<forall>frame2 len2 K2 ts2 now2.
            flow_parse zero_flow frame2 len2 hsh = Some (True, K2) \<longrightarrow>
            (\<exists>q tbl2. g_inet_flow_get_full tbl1 frame2 len2 hsh ts2 now2 = Some (Some q, tbl2)
                \<and> (q = p \<longleftrightarrow> tuple K2 = tuple K)))"
proof -
  from get_full_cases[OF parse wf, of ts now] obtain p tbl1 where
    call: "g_inet_flow_get_full tbl frame len hsh ts now = Some (Some p, tbl1)"
    and rest: "p < length (objs tbl) \<longleftrightarrow> lookup_key K \<in> set (table_keys tbl)"
      "hits tbl1 = hits tbl + 1 \<and> misses tbl1 = misses tbl \<longleftrightarrow> lookup_key K \<in> set (table_keys tbl)"
      "misses tbl1 = misses tbl + 1 \<and> hits tbl1 = hits tbl \<longleftrightarrow> lookup_key K \<notin> set (table_keys tbl)"
    by blast
  from retouch[OF parse wf call] have
    p: "lookup_ptr tbl1 K = Some p" "table_wf tbl1" "p < length (objs tbl1)"
       "tuple (objs tbl1 ! p) = tuple K" by auto
  have second: "\<exists>q tbl2. g_inet_flow_get_full tbl1 frame2 len2 hsh ts2 now2 = Some (Some q, tbl2)
                \<and> (q = p \<longleftrightarrow> tuple K2 = tuple K)"
    if parse2: "flow_parse zero_flow frame2 len2 hsh = Some (True, K2)"
    for frame2 len2 K2 ts2 now2
  proof (cases "tuple K2 = tuple K")
    case True
    then have "lookup_key K2 = lookup_key K"
      by (simp add: lookup_key_parse[OF parse] lookup_key_parse[OF parse2])
    then have "lookup_ptr tbl1 K2 = Some p" using p(1) by (simp add: lookup_ptr_def)
    then show ?thesis using True by (simp add: get_full_eq[OF parse2 p(2)])
  next
    case False
    show ?thesis
    proof (cases "lookup_ptr tbl1 K2")
      case None
      then show ?thesis using False p(3) by (simp add: get_full_eq[OF parse2 p(2)])
    next
      case (Some q)
      then show ?thesis
        using False p(4) lookup_ptr_Some(2)[OF Some p(2)]
        by (auto simp: get_full_eq[OF parse2 p(2)])
    qed
  qed
  show ?thesis
    using call rest second lookup_key_parse[OF parse] by blast
qed

theorem hit_iff_hash_and_key_match_witness:
  "flow_parse zero_flow (ex_frame 1) 54 5 = Some (True, ex_packet 5)
   \<and> table_wf g_inet_flow_table_new
   \<and> (\<exists>p tbl1. g_inet_flow_get_full g_inet_flow_table_new (ex_frame 1) 54 5 0 1000
          = Some (Some p, tbl1) \<and> misses tbl1 = 1 \<and> hits tbl1 = 0
        \<and> lookup_key (ex_packet 5) = (5, ex_tuple)
        \<and> (\<exists>q tbl2. g_inet_flow_get_full tbl1 (ex_frame 1) 54 5 0 1000 = Some (Some q, tbl2)
              \<and> q = p))"
proof -
  have k: "lookup_key (ex_packet 5) \<notin> set (table_keys g_inet_flow_table_new)"
    by (simp add: table_keys_def g_inet_flow_table_new_def)
  have h: "real_hash (ucast (5 :: guint16)) = 5"
    by (simp add: real_hash_def)
  show ?thesis
    using hit_iff_hash_and_key_match[OF ex_parse table_wf_new, of 5 0 1000] ex_parse[of 5]
      table_wf_new k h
    by (fastforce simp: g_inet_flow_table_new_def ex_packet_def)
qed

text \<open>
  C2 as stated fails: the same frame observed first with external hash 5 and then with
  external hash 7 misses twice, and the table ends up with two records whose tuples
  are equal under \<^verbatim>\<open>flow_compare\<close>.
\<close>

theorem same_key_other_hash_is_a_miss:
  "run g_inet_flow_table_new [ex_call 1 5, ex_call 1 7]
     = Some \<lparr>objs = [(ex_packet 5)\<lparr>timestamp := 1000\<rparr>, (ex_packet 7)\<lparr>timestamp := 1000\<rparr>],
             table = [(5, 0), (7, 1)], list = [1, 0], hits = 0, misses = 2\<rparr>
   \<and> parsed (ex_call 1 7) = Some (ex_packet 7)
   \<and> flow_compare (ex_packet 5) (ex_packet 7)"
proof -
  let ?t0 = "g_inet_flow_table_new"
  let ?t1 = "miss_table ?t0 (ex_packet 5) 1000"
  have h: "real_hash 5 = 5" "real_hash 7 = 7"
    by (simp_all add: real_hash_def)
  have k: "lookup_key (ex_packet 5) = (5, ex_tuple)" "lookup_key (ex_packet 7) = (7, ex_tuple)"
    by (simp_all add: lookup_key_def flow_hash_def ex_packet_def h)
  have c1: "do_call ?t0 (ex_call 1 5) = Some (Some 0, ?t1)"
    by (simp add: do_call_def ex_call_def get_full_eq[OF ex_parse table_wf_new] lookup_ptr_def
        stamp_of_def) (simp add: g_inet_flow_table_new_def stamp_of_def)
  have wf1: "table_wf ?t1" by (simp add: table_wf_miss table_wf_new)
  have l: "lookup_ptr ?t1 (ex_packet 7) = None"
    by (simp add: lookup_ptr_miss[OF table_wf_new] k) (simp add: lookup_ptr_def g_inet_flow_table_new_def)
  have c2: "do_call ?t1 (ex_call 1 7) = Some (Some 1, miss_table ?t1 (ex_packet 7) 1000)"
    by (simp add: do_call_def ex_call_def get_full_eq[OF ex_parse wf1] l stamp_of_def)
       (simp add: miss_table_def g_inet_flow_table_new_def stamp_of_def)
  have t2: "miss_table ?t1 (ex_packet 7) 1000 =
      \<lparr>objs = [(ex_packet 5)\<lparr>timestamp := 1000\<rparr>, (ex_packet 7)\<lparr>timestamp := 1000\<rparr>],
             table = [(5, 0), (7, 1)], list = [1, 0], hits = 0, misses = 2\<rparr>"
    by (simp add: miss_table_def g_inet_flow_table_new_def new_flow_def k)
       (simp add: flow_hash_def ex_packet_def zero_flow_def)
  have r: "run ?t0 [ex_call 1 5, ex_call 1 7] = Some (miss_table ?t1 (ex_packet 7) 1000)"
    by (simp add: c1 c2)
  have pr: "parsed (ex_call 1 7) = Some (ex_packet 7)"
    by (simp add: parsed_def ex_call_def ex_parse)
  have fc: "flow_compare (ex_packet 5) (ex_packet 7)"
    by (simp add: flow_compare_iff ex_packet_def)
  show ?thesis
    using r t2 pr fc by simp
qed

section \<open>Accessors and frame lengths\<close>

lemma ex_flow_strings:
  "g_inet_flow_get_property (ex_packet 5) FLOW_UIP = GString (Some ''10.0.0.1'')"
  "g_inet_flow_get_property (ex_packet 5) FLOW_LIP = GString (Some ''10.0.0.1'')"
  "g_inet_address_to_string (g_inet_address_new_from_bytes
      (ip_bytes (upper_ip (tuple (ex_packet 5)))) (family (ex_packet 5))) = Some ''10.0.0.2''"
  by (simp_all add: g_inet_flow_get_property_def FLOW_UIP_def FLOW_LIP_def FLOW_HASH_def
      FLOW_PROTOCOL_def FLOW_LPORT_def FLOW_UPORT_def g_inet_address_to_string_def
      g_inet_address_new_from_bytes_def ip_bytes_def word_bytes_def ex_packet_def ex_tuple_def
      char_of_def bit_0)

text \<open>
  C5.  The accessor for the lower address string prints \<^verbatim>\<open>lower_ip\<close>.  The accessor for
  the upper address string, installed as "Upper IP address (larger value)", prints
  \<^verbatim>\<open>lower_ip\<close> as well: for every flow the two properties have the same value.  For the
  flow between 10.0.0.1 and 10.0.0.2 the upper address property is "10.0.0.1", while
  the \<^verbatim>\<open>upper_ip\<close> field prints as "10.0.0.2".
\<close>

theorem uip_property_reads_lower_ip:
  "g_inet_flow_get_property flow FLOW_UIP = g_inet_flow_get_property flow FLOW_LIP
   \<and> parsed (ex_call 1 5) = Some (ex_packet 5)
   \<and> g_inet_flow_get_property (ex_packet 5) FLOW_UIP = GString (Some ''10.0.0.1'')
   \<and> g_inet_address_to_string (g_inet_address_new_from_bytes
        (ip_bytes (upper_ip (tuple (ex_packet 5)))) (family (ex_packet 5))) = Some ''10.0.0.2''"
proof -
  have "g_inet_flow_get_property flow FLOW_UIP = g_inet_flow_get_property flow FLOW_LIP"
    by (simp add: g_inet_flow_get_property_def FLOW_UIP_def FLOW_LIP_def FLOW_HASH_def
      FLOW_PROTOCOL_def FLOW_LPORT_def FLOW_UPORT_def)
  moreover have "parsed (ex_call 1 5) = Some (ex_packet 5)"
    by (simp add: parsed_def ex_call_def ex_parse)
  ultimately show ?thesis using ex_flow_strings by simp
qed

text \<open>
  C4.  \<^verbatim>\<open>flow_parse\<close> reads the type field at bytes 12 and 13 and passes on
  \<^verbatim>\<open>length - 14\<close> without comparing \<^verbatim>\<open>length\<close> with 14.  With \<^verbatim>\<open>length = 13\<close> the
  difference wraps to \<open>2\<^sup>3\<^sup>2 - 1\<close> and both later length checks pass: on a buffer that
  holds a whole TCP frame the call creates and returns a record; the outcome depends on
  bytes past the first 13 (another buffer with the same first 13 bytes is rejected);
  and on a buffer of exactly 13 bytes the parser reads outside the buffer.
\<close>

theorem short_frame_is_parsed:
  "take 13 (ex_frame 1) = take 13 ex_udp_frame
   \<and> g_inet_flow_get_full g_inet_flow_table_new (ex_frame 1) 13 5 0 1000
        = Some (Some 0, miss_table g_inet_flow_table_new (ex_packet 5) 1000)
   \<and> g_inet_flow_get_full g_inet_flow_table_new ex_udp_frame 13 5 0 1000
        = Some (None, g_inet_flow_table_new)
   \<and> g_inet_flow_get_full g_inet_flow_table_new (take 13 (ex_frame 1)) 13 5 0 1000 = None"
proof -
  have p: "flow_parse zero_flow (ex_frame 1) 13 5 = Some (True, ex_packet 5)"
    by (simp add: ex_defs parse_defs ex_packet_def ex_tuple_def)
  obtain g where u: "flow_parse zero_flow ex_udp_frame 13 5 = Some (False, g)"
    by (simp add: ex_defs parse_defs)
  have n: "flow_parse zero_flow (take 13 (ex_frame 1)) 13 5 = None"
    by (simp add: ex_defs parse_defs)
  have none: "lookup_ptr g_inet_flow_table_new (ex_packet 5) = None"
    by (simp add: lookup_ptr_def g_inet_flow_table_new_def)
  have c: "g_inet_flow_get_full g_inet_flow_table_new (ex_frame 1) 13 5 0 1000
        = Some (Some 0, miss_table g_inet_flow_table_new (ex_packet 5) 1000)"
    by (simp add: get_full_eq[OF p table_wf_new] none stamp_of_def)
       (simp add: g_inet_flow_table_new_def)
  have t: "take 13 (ex_frame 1) = take 13 ex_udp_frame"
    by (simp add: ex_defs)
  have c2: "g_inet_flow_get_full g_inet_flow_table_new ex_udp_frame 13 5 0 1000
        = Some (None, g_inet_flow_table_new)"
    by (simp add: g_inet_flow_get_full_def u)
  have c3: "g_inet_flow_get_full g_inet_flow_table_new (take 13 (ex_frame 1)) 13 5 0 1000 = None"
    by (simp add: g_inet_flow_get_full_def n)
  show ?thesis
    by (rule conjI[OF t conjI[OF c conjI[OF c2 c3]]])
qed

text \<open>
  C3 as stated fails: a frame of 38 bytes (Ethernet header, IPv4 header, the four port
  bytes) is rejected, also when the buffer behind it holds all 54 bytes.
\<close>

theorem four_port_bytes_do_not_suffice:
  "length (take 38 (ex_frame 1)) = 38
   \<and> map_option fst (flow_parse zero_flow (take 38 (ex_frame 1)) 38 0) = Some False
   \<and> g_inet_flow_get_full g_inet_flow_table_new (take 38 (ex_frame 1)) 38 0 0 1000
        = Some (None, g_inet_flow_table_new)
   \<and> map_option fst (flow_parse zero_flow (ex_frame 1) 38 0) = Some False"
proof -
  obtain g where u: "flow_parse zero_flow (take 38 (ex_frame 1)) 38 0 = Some (False, g)"
    by (simp add: ex_defs parse_defs)
  obtain g' where v: "flow_parse zero_flow (ex_frame 1) 38 0 = Some (False, g')"
    by (simp add: ex_defs parse_defs)
  have l: "length (take 38 (ex_frame 1)) = 38" by (simp add: ex_defs)
  show ?thesis using l by (simp add: g_inet_flow_get_full_def u v)
qed

lemma rd8_drop: "rd8 (drop n d) j = rd8 d (n + j)"
  by (auto simp: rd8_def)

lemma rd8_take_eq:
  assumes "take m d' = take m d" "m \<le> length d" "m \<le> length d'" "k < m"
  shows "rd8 d' k = rd8 d k"
proof -
  have "d' ! k = take m d' ! k" using assms(4) by simp
  also have "\<dots> = take m d ! k" by (simp only: assms(1))
  also have "\<dots> = d ! k" using assms(4) by simp
  finally show ?thesis using assms by (simp add: rd8_def)
qed

lemma flow_parse_reads_38:
  assumes "take 38 d' = take 38 d" "38 \<le> length d" "38 \<le> length d'"
  shows "flow_parse f d' len h = flow_parse f d len h"
proof -
  have r: "rd8 d' k = rd8 d k" if "k < 38" for k
    using assms that by (rule rd8_take_eq)
  have e: "rd16 d' 12 = rd16 d 12"
    "rd32 (drop 14 d') 12 = rd32 (drop 14 d) 12"
    "rd32 (drop 14 d') 16 = rd32 (drop 14 d) 16"
    "rd8 (drop 14 d') 9 = rd8 (drop 14 d) 9"
    "rd16 (drop 20 (drop 14 d')) 0 = rd16 (drop 20 (drop 14 d)) 0"
    "rd16 (drop 20 (drop 14 d')) 2 = rd16 (drop 20 (drop 14 d)) 2"
    by (simp_all add: rd16_def rd32_def rd8_drop r)
  show ?thesis
    unfolding flow_parse_def flow_parse_ipv4_def flow_parse_tcp_def sizeofs e ..
qed

lemma unat_len_sub:
  fixes len :: guint32
  shows "14 \<le> unat len \<Longrightarrow> unat (len - 14) = unat len - 14"
    and "34 \<le> unat len \<Longrightarrow> unat (len - 34) = unat len - 34"
  by (simp_all add: unat_sub word_le_nat_alt)

text \<open>
  C3 (as amended).  For an Ethernet/IPv4/TCP frame whose length covers the Ethernet
  and IPv4 headers (at least 34 bytes, all inside the buffer), parsing succeeds when
  at least 20 bytes, a whole fixed TCP header, remain after the IPv4 header (total
  length at least 54), and is rejected when fewer than 20 remain.  Only the first 38
  bytes of the frame are read: a buffer of the same size with the same first 38 bytes
  parses alike.
\<close>

theorem tcp_needs_full_header:
  assumes buf: "unat len \<le> length frame" and ip: "34 \<le> unat len"
      and eth: "frame ! 12 = 8" "frame ! 13 = 0" and tcp: "frame ! 23 = 6"
  shows "(54 \<le> unat len \<longrightarrow> (\<exists>K. flow_parse f frame len hsh = Some (True, K)))
       \<and> (unat len < 54 \<longrightarrow> (\<exists>g. flow_parse f frame len hsh = Some (False, g)))
       \<and> (\<forall>frame'. length frame' = length frame \<longrightarrow> take 38 frame' = take 38 frame \<longrightarrow>
            38 \<le> length frame \<longrightarrow> flow_parse f frame' len hsh = flow_parse f frame len hsh)"
proof -
  have l1: "\<not> len - 14 < 20"
    using ip unat_len_sub(1)[of len] by (simp add: word_less_nat_alt)
  have l2: "len - 34 < 20 \<longleftrightarrow> unat len < 54"
    using ip unat_len_sub(2)[of len] by (auto simp: word_less_nat_alt)
  have et: "GUINT16_FROM_BE (ucast (8 :: guint8) OR push_bit 8 (ucast (0 :: guint8))) = ETH_PROTOCOL_IP"
    by (simp add: GUINT16_FROM_BE_def ETH_PROTOCOL_IP_def)
  have short: "\<exists>g. flow_parse f frame len hsh = Some (False, g)" if "unat len < 54"
    using that buf ip eth tcp l1 l2 et
    by (simp add: flow_parse_def flow_parse_ipv4_def flow_parse_tcp_def rd16_def rd32_def
        rd8_def sizeofs IP_PROTOCOL_TCP_def Let_def)
  have long: "\<exists>K. flow_parse f frame len hsh = Some (True, K)" if "54 \<le> unat len"
  proof -
    have lf: "54 \<le> length frame" "\<not> len - 34 < 20" using that buf l2 by simp_all
    show ?thesis
      using lf eth tcp l1 et
      by (simp add: flow_parse_def flow_parse_ipv4_def flow_parse_tcp_def rd16_def rd32_def
          rd8_def sizeofs IP_PROTOCOL_TCP_def Let_def) arith
  qed
  have same: "flow_parse f frame' len hsh = flow_parse f frame len hsh"
    if "length frame' = length frame" "take 38 frame' = take 38 frame" "38 \<le> length frame"
    for frame'
    using that by (intro flow_parse_reads_38) simp_all
  show ?thesis
    using short long same by blast
qed

theorem tcp_needs_full_header_witness:
  "unat (54 :: guint32) \<le> length (ex_frame 1) \<and> 34 \<le> unat (54 :: guint32)
   \<and> ex_frame 1 ! 12 = 8 \<and> ex_frame 1 ! 13 = 0 \<and> ex_frame 1 ! 23 = 6
   \<and> (\<exists>K. flow_parse zero_flow (ex_frame 1) 54 0 = Some (True, K))
   \<and> unat (53 :: guint32) \<le> length (ex_frame 1) \<and> 34 \<le> unat (53 :: guint32)
   \<and> (\<exists>g. flow_parse zero_flow (ex_frame 1) 53 0 = Some (False, g))"
proof -
  have a: "unat (54 :: guint32) \<le> length (ex_frame 1)" "34 \<le> unat (54 :: guint32)"
    "unat (53 :: guint32) \<le> length (ex_frame 1)" "34 \<le> unat (53 :: guint32)"
    "ex_frame 1 ! 12 = 8" "ex_frame 1 ! 13 = 0" "ex_frame 1 ! 23 = 6"
    by (simp_all add: ex_defs)
  have b: "54 \<le> unat (54 :: guint32)" "unat (53 :: guint32) < 54" by simp_all
  have e1: "\<exists>K. flow_parse zero_flow (ex_frame 1) 54 0 = Some (True, K)"
    using tcp_needs_full_header[OF a(1,2,5,6,7), of zero_flow 0] b(1) by blast
  have e2: "\<exists>g. flow_parse zero_flow (ex_frame 1) 53 0 = Some (False, g)"
    using tcp_needs_full_header[OF a(3,4,5,6,7), of zero_flow 0] b(2) by blast
  show ?thesis
    using a e1 e2 by (intro conjI)
qed

section \<open>Sequences of calls\<close>

lemma parsed_Some: "parsed c = Some K \<longleftrightarrow>
    flow_parse zero_flow (c_frame c) (c_len c) (c_hash c) = Some (True, K)"
  by (auto simp: parsed_def split: option.splits bool.splits prod.splits)

lemma parsed_observation: "observation c = observation d \<Longrightarrow> parsed c = parsed d"
  by (simp add: parsed_def observation_def)

lemma do_call_parsed:
  assumes "parsed c = Some K" "table_wf t"
  shows "do_call t c =
     Some (case lookup_ptr t K of
             Some p \<Rightarrow> (Some p, hit_table t p (stamp_of (c_timestamp c) (c_now c)))
           | None \<Rightarrow> (Some (length (objs t)), miss_table t K (stamp_of (c_timestamp c) (c_now c))))"
  using assms by (simp add: do_call_def parsed_Some get_full_eq)

lemma do_call_cases:
  assumes call: "do_call t c = Some (r, t')" and wf: "table_wf t"
  shows "(r = None \<and> t' = t)
       \<or> (\<exists>p st. r = Some p \<and> p < length (objs t) \<and> t' = hit_table t p st)
       \<or> (\<exists>K st. r = Some (length (objs t)) \<and> t' = miss_table t K st)"
proof -
  from call obtain ok K where
    p: "flow_parse zero_flow (c_frame c) (c_len c) (c_hash c) = Some (ok, K)"
    by (auto simp: do_call_def g_inet_flow_get_full_def split: Option.bind_splits)
  show ?thesis
  proof (cases ok)
    case False
    then show ?thesis using call p by (simp add: do_call_def g_inet_flow_get_full_def)
  next
    case True
    then have "parsed c = Some K" using p by (simp add: parsed_Some)
    from do_call_parsed[OF this wf] call show ?thesis
      by (auto split: option.splits dest: lookup_ptr_Some(1)[OF _ wf])
  qed
qed

lemma do_call_wf:
  assumes "do_call t c = Some (r, t')" "table_wf t"
  shows "table_wf t'"
  using do_call_cases[OF assms] assms(2) by (auto simp: table_wf_hit table_wf_miss)

lemma counted_step:
  assumes "do_call t c = Some (r, t')" "counted t"
  shows "counted t'"
  using do_call_cases[OF assms(1)] assms(2)
  by (auto simp: counted_def table_wf_hit table_wf_miss) (simp_all add: hit_table_def miss_table_def)

lemma counted_run: "run t cs = Some t' \<Longrightarrow> counted t \<Longrightarrow> counted t'"
proof (induction cs arbitrary: t)
  case Nil
  then show ?case by simp
next
  case (Cons c cs)
  then show ?case
    by (auto split: option.splits dest: counted_step)
qed

lemma counted_new: "counted g_inet_flow_table_new"
  by (simp add: counted_def table_wf_new) (simp add: g_inet_flow_table_new_def)

lemma flow_parse_defined:
  assumes "14 \<le> unat len" "unat len \<le> length frame"
  shows "\<exists>ok g. flow_parse f frame len hsh = Some (ok, g)"
proof -
  have a: "\<not> len - 14 < 20 \<Longrightarrow> 34 \<le> length frame"
    using assms unat_len_sub(1)[of len] by (simp add: word_less_nat_alt)
  have b: "\<not> len - 34 < 20 \<Longrightarrow> \<not> len - 14 < 20 \<Longrightarrow> 54 \<le> length frame"
    using assms unat_len_sub[of len] by (simp add: word_less_nat_alt)
  show ?thesis using assms(1,2) a b
    by (auto simp: flow_parse_def flow_parse_ipv4_def flow_parse_tcp_def rd16_def rd32_def
        rd8_def sizeofs Let_def)
qed

lemma do_call_defined:
  assumes "14 \<le> unat (c_len c)" "unat (c_len c) \<le> length (c_frame c)"
  shows "\<exists>r t'. do_call t c = Some (r, t')"
  using flow_parse_defined[OF assms, of zero_flow "c_hash c"]
  by (auto simp: do_call_def g_inet_flow_get_full_def Let_def split: prod.splits option.splits)

lemma run_defined:
  "\<forall>c\<in>set cs. 14 \<le> unat (c_len c) \<and> unat (c_len c) \<le> length (c_frame c) \<Longrightarrow>
     \<exists>t'. run t cs = Some t'"
proof (induction cs arbitrary: t)
  case Nil
  then show ?case by simp
next
  case (Cons c cs)
  then obtain r t1 where "do_call t c = Some (r, t1)"
    using do_call_defined[of c t] by auto
  then show ?case using Cons by simp
qed

lemma ucast_size:
  "n < 2 ^ 32 \<Longrightarrow> (ucast (of_nat n :: guint32) :: guint64) = of_nat n"
  by (simp add: unsigned_of_nat take_bit_nat_eq_self)

lemma persist_hit:
  "p < length (objs t) \<Longrightarrow> q < length (objs t) \<Longrightarrow>
     tuple (objs (hit_table t p st) ! q) = tuple (objs t ! q)
     \<and> hash (objs (hit_table t p st) ! q) = hash (objs t ! q)"
  by (cases "p = q") (simp_all add: hit_table_def)

lemma persist_miss:
  "q < length (objs t) \<Longrightarrow> objs (miss_table t K st) ! q = objs t ! q"
  by (simp add: miss_table_def nth_append)

lemma ex_parsed: "parsed (ex_call 1 h) = Some (ex_packet h)"
  by (simp add: parsed_Some ex_call_def ex_parse)

lemma ex_run2:
  "run g_inet_flow_table_new [ex_call 1 5, ex_call 1 5]
     = Some (hit_table (miss_table g_inet_flow_table_new (ex_packet 5) 1000) 0 1000)"
proof -
  let ?t1 = "miss_table g_inet_flow_table_new (ex_packet 5) 1000"
  have st: "stamp_of (c_timestamp (ex_call 1 5)) (c_now (ex_call 1 5)) = 1000"
    by (simp add: stamp_of_def ex_call_def)
  have l0: "lookup_ptr g_inet_flow_table_new (ex_packet 5) = None"
    by (simp add: lookup_ptr_def g_inet_flow_table_new_def)
  have l1: "lookup_ptr ?t1 (ex_packet 5) = Some 0"
    by (simp add: lookup_ptr_miss[OF table_wf_new] l0) (simp add: g_inet_flow_table_new_def)
  have c1: "do_call g_inet_flow_table_new (ex_call 1 5) = Some (Some 0, ?t1)"
    by (simp add: do_call_parsed[OF ex_parsed table_wf_new] l0 st)
       (simp add: g_inet_flow_table_new_def)
  have c2: "do_call ?t1 (ex_call 1 5) = Some (Some 0, hit_table ?t1 0 1000)"
    by (simp add: do_call_parsed[OF ex_parsed table_wf_miss[OF table_wf_new]] l1 st)
  show ?thesis by (simp add: c1 c2)
qed

text \<open>
  C10.  In every table reached from a new table by a sequence of calls, \<open>misses\<close> is
  the number of nodes of the hash table (as a 64-bit value), and the size property
  equals the misses property while the node count fits the \<^verbatim>\<open>guint\<close> that
  \<^verbatim>\<open>g_hash_table_size\<close> returns.  A further call either leaves the nodes and \<open>misses\<close>
  alone or adds one node and one miss; it never takes an object away, and the tuple
  and hash of every object stay as they are.
\<close>

theorem size_equals_misses:
  assumes "run g_inet_flow_table_new cs = Some tbl"
  shows "misses tbl = of_nat (length (table tbl))
     \<and> (length (table tbl) < 2 ^ 32 \<longrightarrow>
          g_inet_flow_table_get_property tbl TABLE_SIZE
            = g_inet_flow_table_get_property tbl TABLE_MISSES)
     \<and> (\<forall>c r tbl'. do_call tbl c = Some (r, tbl') \<longrightarrow>
          ((table tbl' = table tbl \<and> misses tbl' = misses tbl)
             \<or> (\<exists>n. table tbl' = table tbl @ [n] \<and> misses tbl' = misses tbl + 1))
          \<and> length (objs tbl) \<le> length (objs tbl')
          \<and> (\<forall>p<length (objs tbl). tuple (objs tbl' ! p) = tuple (objs tbl ! p)
                \<and> hash (objs tbl' ! p) = hash (objs tbl ! p)))"
proof -
  have c: "counted tbl" using assms counted_new by (rule counted_run)
  then have wf: "table_wf tbl" and m: "misses tbl = of_nat (length (table tbl))"
    by (simp_all add: counted_def)
  have size: "g_inet_flow_table_get_property tbl TABLE_SIZE
            = g_inet_flow_table_get_property tbl TABLE_MISSES" if "length (table tbl) < 2 ^ 32"
    using that m by (simp add: g_inet_flow_table_get_property_def TABLE_SIZE_def
        TABLE_MISSES_def TABLE_HITS_def g_hash_table_size_def ucast_size)
  have step: "((table tbl' = table tbl \<and> misses tbl' = misses tbl)
             \<or> (\<exists>n. table tbl' = table tbl @ [n] \<and> misses tbl' = misses tbl + 1))
          \<and> length (objs tbl) \<le> length (objs tbl')
          \<and> (\<forall>p<length (objs tbl). tuple (objs tbl' ! p) = tuple (objs tbl ! p)
                \<and> hash (objs tbl' ! p) = hash (objs tbl ! p))"
    if "do_call tbl c = Some (r, tbl')" for c r tbl'
    using do_call_cases[OF that wf]
  proof (elim disjE exE conjE)
    assume "r = None" "tbl' = tbl"
    then show ?thesis by simp
  next
    fix p st assume "p < length (objs tbl)" "tbl' = hit_table tbl p st"
    then show ?thesis using persist_hit[of p tbl _ st] by (simp add: hit_table_def)
  next
    fix K st assume "tbl' = miss_table tbl K st"
    then show ?thesis using persist_miss[of _ tbl K st] by (simp add: miss_table_def)
  qed
  show ?thesis using m size step by blast
qed

theorem size_equals_misses_witness:
  "run g_inet_flow_table_new [ex_call 1 5, ex_call 1 5]
     = Some (hit_table (miss_table g_inet_flow_table_new (ex_packet 5) 1000) 0 1000)
   \<and> misses (hit_table (miss_table g_inet_flow_table_new (ex_packet 5) 1000) 0 1000) = 1
   \<and> length (table (hit_table (miss_table g_inet_flow_table_new (ex_packet 5) 1000) 0 1000)) = 1
   \<and> g_inet_flow_table_get_property
        (hit_table (miss_table g_inet_flow_table_new (ex_packet 5) 1000) 0 1000) TABLE_SIZE
      = GUInt64 1"
proof -
  let ?t = "hit_table (miss_table g_inet_flow_table_new (ex_packet 5) 1000) 0 1000"
  have l: "length (table ?t) = 1"
    by (simp add: hit_table_def miss_table_def g_inet_flow_table_new_def)
  note th = size_equals_misses[OF ex_run2]
  from th l have m: "misses ?t = 1" by simp
  from th l m have "g_inet_flow_table_get_property ?t TABLE_SIZE = GUInt64 1"
    by (simp add: g_inet_flow_table_get_property_def TABLE_SIZE_def TABLE_MISSES_def
        TABLE_HITS_def)
  with ex_run2 l m show ?thesis by simp
qed

lemma key_of_snd: "snd (key_of c) = tuple_of c"
  by (simp add: key_of_def tuple_of_def lookup_key_def)

lemma run_all_miss:
  assumes "table_wf t" "\<forall>c\<in>set cs. parsed c \<noteq> None" "distinct (map tuple_of cs)"
    "\<forall>c\<in>set cs. tuple_of c \<notin> snd ` set (table_keys t)"
  shows "\<exists>t'. run t cs = Some t' \<and> table_wf t' \<and> misses t' = misses t + of_nat (length cs)
     \<and> hits t' = hits t \<and> set (table_keys t') = set (table_keys t) \<union> key_of ` set cs"
  using assms
proof (induction cs arbitrary: t)
  case Nil
  then show ?case by simp
next
  case (Cons c cs)
  from Cons.prems(2) obtain K where K: "parsed c = Some K" by auto
  have kt: "snd (lookup_key K) = tuple_of c" using K by (simp add: tuple_of_def lookup_key_def)
  have "lookup_key K \<notin> set (table_keys t)"
    using Cons.prems(4) kt by force
  then have none: "lookup_ptr t K = None" by (simp add: lookup_ptr_None)
  let ?t1 = "miss_table t K (stamp_of (c_timestamp c) (c_now c))"
  have call: "do_call t c = Some (Some (length (objs t)), ?t1)"
    by (simp add: do_call_parsed[OF K Cons.prems(1)] none)
  have wf1: "table_wf ?t1" using Cons.prems(1) by (rule table_wf_miss)
  have keys1: "table_keys ?t1 = table_keys t @ [key_of c]"
    using K by (simp add: table_keys_miss[OF Cons.prems(1)] key_of_def)
  have fresh: "\<forall>d\<in>set cs. tuple_of d \<notin> snd ` set (table_keys ?t1)"
  proof
    fix d assume d: "d \<in> set cs"
    from Cons.prems(3) have "tuple_of c \<notin> tuple_of ` set cs" by simp
    with d have "tuple_of d \<noteq> tuple_of c" by (metis imageI)
    moreover have "tuple_of d \<notin> snd ` set (table_keys t)" using Cons.prems(4) d by simp
    ultimately show "tuple_of d \<notin> snd ` set (table_keys ?t1)"
      by (simp add: keys1 key_of_snd)
  qed
  have ok': "\<forall>c\<in>set cs. parsed c \<noteq> None" using Cons.prems(2) by simp
  have d': "distinct (map tuple_of cs)" using Cons.prems(3) by simp
  from Cons.IH[OF wf1 ok' d' fresh] obtain t' where
    t': "run ?t1 cs = Some t'" "table_wf t'" "misses t' = misses ?t1 + of_nat (length cs)"
      "hits t' = hits ?t1" "set (table_keys t') = set (table_keys ?t1) \<union> key_of ` set cs"
    by blast
  have m1: "misses ?t1 = misses t + 1" "hits ?t1 = hits t" by (simp_all add: miss_table_def)
  have r: "run t (c # cs) = Some t'" by (simp add: call t'(1))
  have m: "misses t' = misses t + of_nat (length (c # cs))" by (simp add: t'(3) m1)
  have h: "hits t' = hits t" by (simp add: t'(4) m1)
  have k: "set (table_keys t') = set (table_keys t) \<union> key_of ` set (c # cs)"
    by (simp add: t'(5) keys1)
  show ?case by (intro exI[of _ t'] conjI r t'(2) m h k)
qed

lemma run_all_hit:
  assumes "table_wf t" "\<forall>c\<in>set ds. parsed c \<noteq> None \<and> key_of c \<in> set (table_keys t)"
  shows "\<exists>t'. run t ds = Some t' \<and> table_wf t' \<and> hits t' = hits t + of_nat (length ds)
     \<and> misses t' = misses t"
  using assms
proof (induction ds arbitrary: t)
  case Nil
  then show ?case by simp
next
  case (Cons c ds)
  from Cons.prems(2) obtain K where K: "parsed c = Some K" by auto
  then have "lookup_key K \<in> set (table_keys t)" using Cons.prems(2) by (simp add: key_of_def)
  then obtain p where p: "lookup_ptr t K = Some p"
    using lookup_ptr_None[of t K] by auto
  let ?t1 = "hit_table t p (stamp_of (c_timestamp c) (c_now c))"
  have call: "do_call t c = Some (Some p, ?t1)"
    by (simp add: do_call_parsed[OF K Cons.prems(1)] p)
  have wf1: "table_wf ?t1" using Cons.prems(1) by (rule table_wf_hit)
  have "\<forall>c\<in>set ds. parsed c \<noteq> None \<and> key_of c \<in> set (table_keys ?t1)"
    using Cons.prems(2) by (simp add: table_keys_hit)
  from Cons.IH[OF wf1 this] obtain t' where
    t': "run ?t1 ds = Some t'" "table_wf t'" "hits t' = hits ?t1 + of_nat (length ds)"
      "misses t' = misses ?t1" by blast
  have h1: "hits ?t1 = hits t + 1" "misses ?t1 = misses t" by (simp_all add: hit_table_def)
  have r: "run t (c # ds) = Some t'" by (simp add: call t'(1))
  have h: "hits t' = hits t + of_nat (length (c # ds))" by (simp add: t'(3) h1)
  have m: "misses t' = misses t" by (simp add: t'(4) h1)
  show ?case by (intro exI[of _ t'] conjI r t'(2) h m)
qed

text \<open>
  C7.  Starting from a new table, calls for \<open>N\<close> frames that parse to pairwise different
  tuples leave \<open>misses = N\<close> and \<open>hits = 0\<close>; when each of them is then observed once
  more (the same frame, length and hash argument, in any order and at any time),
  \<open>hits = N\<close> and \<open>misses\<close> is still \<open>N\<close>.  The counters are 64-bit values.
\<close>

theorem hit_miss_accounting:
  assumes ok: "\<forall>c\<in>set cs. parsed c \<noteq> None"
      and dist: "distinct (map tuple_of cs)"
      and again: "mset (map observation ds) = mset (map observation cs)"
  shows "\<exists>t1 t2. run g_inet_flow_table_new cs = Some t1
     \<and> misses t1 = of_nat (length cs) \<and> hits t1 = 0
     \<and> run t1 ds = Some t2
     \<and> hits t2 = of_nat (length cs) \<and> misses t2 = of_nat (length cs)"
proof -
  have e: "\<forall>c\<in>set cs. tuple_of c \<notin> snd ` set (table_keys g_inet_flow_table_new)"
    by (simp add: table_keys_def g_inet_flow_table_new_def)
  from run_all_miss[OF table_wf_new ok dist e] obtain t1 where
    raw: "run g_inet_flow_table_new cs = Some t1" "table_wf t1"
      "misses t1 = misses g_inet_flow_table_new + of_nat (length cs)"
      "hits t1 = hits g_inet_flow_table_new"
      "set (table_keys t1) = set (table_keys g_inet_flow_table_new) \<union> key_of ` set cs"
    by blast
  have t1: "run g_inet_flow_table_new cs = Some t1" "table_wf t1"
      "misses t1 = of_nat (length cs)" "hits t1 = 0"
      "set (table_keys t1) = key_of ` set cs"
    using raw by (simp_all add: g_inet_flow_table_new_def table_keys_def)
  have len: "length ds = length cs"
  proof -
    have "size (mset (map observation ds)) = size (mset (map observation cs))"
      by (simp only: again)
    then show ?thesis by simp
  qed
  have "\<forall>d\<in>set ds. parsed d \<noteq> None \<and> key_of d \<in> set (table_keys t1)"
  proof
    fix d assume "d \<in> set ds"
    then have "observation d \<in> set (map observation ds)" by simp
    then have "observation d \<in> set_mset (mset (map observation ds))" by (simp only: set_mset_mset)
    then have "observation d \<in> set (map observation cs)" by (simp only: again set_mset_mset)
    then obtain c where c: "c \<in> set cs" "observation c = observation d" by auto
    from c(2) have pd: "parsed d = parsed c" by (rule parsed_observation[symmetric])
    then have "key_of d = key_of c" by (simp add: key_of_def)
    then have "key_of d \<in> set (table_keys t1)" using c(1) t1(5) by simp
    moreover have "parsed d \<noteq> None" using pd c(1) ok by simp
    ultimately show "parsed d \<noteq> None \<and> key_of d \<in> set (table_keys t1)" by simp
  qed
  from run_all_hit[OF t1(2) this] obtain t2 where
    t2: "run t1 ds = Some t2" "hits t2 = hits t1 + of_nat (length ds)" "misses t2 = misses t1"
    by blast
  have h2: "hits t2 = of_nat (length cs)" by (simp add: t2(2) t1(4) len)
  have m2: "misses t2 = of_nat (length cs)" by (simp add: t2(3) t1(3))
  show ?thesis by (intro exI[of _ t1] exI[of _ t2] conjI t1(1,3,4) t2(1) h2 m2)
qed

lemma ex_parsed_b: "parsed (ex_call 3 h) = Some (ex_packet_b h)"
  by (simp add: parsed_Some ex_call_def ex_defs parse_defs ex_packet_b_def ex_tuple_b_def)

lemma ex_parsed_c: "parsed (ex_call 4 h) = Some (ex_packet_c h)"
  by (simp add: parsed_Some ex_call_def ex_defs parse_defs ex_packet_c_def ex_tuple_c_def)

lemma ex_tuples_differ:
  "ex_tuple \<noteq> ex_tuple_b" "ex_tuple \<noteq> ex_tuple_c" "ex_tuple_b \<noteq> ex_tuple_c"
  by (simp_all add: ex_tuple_def ex_tuple_b_def ex_tuple_c_def)

theorem hit_miss_accounting_witness:
  "(\<exists>t1 t2. run g_inet_flow_table_new [ex_call 1 5, ex_call 3 5] = Some t1
      \<and> misses t1 = 2 \<and> hits t1 = 0
      \<and> run t1 [ex_call 3 5, ex_call 1 5] = Some t2 \<and> hits t2 = 2 \<and> misses t2 = 2)
   \<and> parsed (ex_call 1 5) \<noteq> None \<and> parsed (ex_call 3 5) \<noteq> None
   \<and> distinct (map tuple_of [ex_call 1 5, ex_call 3 5])"
proof -
  have ok: "\<forall>c\<in>set [ex_call 1 5, ex_call 3 5]. parsed c \<noteq> None"
    by (simp add: ex_parsed ex_parsed_b)
  have dist: "distinct (map tuple_of [ex_call 1 5, ex_call 3 5])"
    using ex_tuples_differ
    by (simp add: tuple_of_def ex_parsed ex_parsed_b ex_packet_def ex_packet_b_def)
  have again: "mset (map observation [ex_call 3 5, ex_call 1 5])
             = mset (map observation [ex_call 1 5, ex_call 3 5])"
    by (simp add: add_mset_commute)
  show ?thesis
    using hit_miss_accounting[OF ok dist again] dist
    by (simp add: ex_parsed ex_parsed_b)
qed

lemma fold_snoc: "fold (\<lambda>p acc. acc @ [p]) xs ys = ys @ xs"
  by (induction xs arbitrary: ys) simp_all

lemma traversal_list: "traversal t = list t"
  by (simp add: traversal_def g_inet_flow_foreach_def fold_snoc)

lemma lookup_key_tuple: "tuple K \<noteq> tuple K' \<Longrightarrow> lookup_key K \<noteq> lookup_key K'"
  by (auto simp: lookup_key_def)

text \<open>
  C8.  The traversal shows the recency list from its head.  A call that returns a
  record either hit an existing one and moved it to the head, or created one and put
  it at the head.  After three frames with different tuples were observed in the order
  A, B, C on a new table and A is observed again, the traversal is A, C, B (the
  objects 0, 2, 1 in order of creation).
\<close>

theorem recency_order:
  assumes pa: "parsed a = Some Ka" and pb: "parsed b = Some Kb" and pc: "parsed c = Some Kc"
      and ab: "tuple Ka \<noteq> tuple Kb" and ac: "tuple Ka \<noteq> tuple Kc"
      and bc: "tuple Kb \<noteq> tuple Kc"
      and a': "observation a' = observation a"
  shows "(\<exists>t. run g_inet_flow_table_new [a, b, c, a'] = Some t \<and> traversal t = [0, 2, 1]
            \<and> map tuple (map ((!) (objs t)) (traversal t)) = [tuple Ka, tuple Kc, tuple Kb])
       \<and> (\<forall>tbl call p tbl'. table_wf tbl \<longrightarrow> do_call tbl call = Some (Some p, tbl') \<longrightarrow>
             (p < length (objs tbl) \<and> hits tbl' = hits tbl + 1
                 \<and> traversal tbl' = p # remove1 p (traversal tbl))
           \<or> (p = length (objs tbl) \<and> misses tbl' = misses tbl + 1
                 \<and> traversal tbl' = p # traversal tbl))"
proof -
  let ?t0 = "g_inet_flow_table_new"
  define sa where "sa = stamp_of (c_timestamp a) (c_now a)"
  define sb where "sb = stamp_of (c_timestamp b) (c_now b)"
  define sc where "sc = stamp_of (c_timestamp c) (c_now c)"
  define sa' where "sa' = stamp_of (c_timestamp a') (c_now a')"
  define t1 where "t1 = miss_table ?t0 Ka sa"
  define t2 where "t2 = miss_table t1 Kb sb"
  define t3 where "t3 = miss_table t2 Kc sc"
  define t4 where "t4 = hit_table t3 0 sa'"
  have pa': "parsed a' = Some Ka" using parsed_observation[OF a'] pa by simp
  have wf: "table_wf t1" "table_wf t2" "table_wf t3"
    by (simp_all add: t1_def t2_def t3_def table_wf_miss table_wf_new)
  have len: "length (objs ?t0) = 0" "length (objs t1) = 1" "length (objs t2) = 2"
    by (simp_all add: t1_def t2_def miss_table_def g_inet_flow_table_new_def)
  have l0: "lookup_ptr ?t0 K = None" for K
    by (simp add: lookup_ptr_def g_inet_flow_table_new_def)
  have la1: "lookup_ptr t1 Ka = Some 0"
    by (simp add: t1_def lookup_ptr_miss[OF table_wf_new] l0 len)
  have lb1: "lookup_ptr t1 Kb = None"
    using lookup_key_tuple[OF ab] by (auto simp: t1_def lookup_ptr_miss[OF table_wf_new] l0)
  have lc1: "lookup_ptr t1 Kc = None"
    using lookup_key_tuple[OF ac] by (auto simp: t1_def lookup_ptr_miss[OF table_wf_new] l0)
  have la2: "lookup_ptr t2 Ka = Some 0"
    by (simp add: t2_def lookup_ptr_miss[OF wf(1)] la1)
  have lc2: "lookup_ptr t2 Kc = None"
    using lookup_key_tuple[OF bc] by (auto simp: t2_def lookup_ptr_miss[OF wf(1)] lc1)
  have la3: "lookup_ptr t3 Ka = Some 0"
    by (simp add: t3_def lookup_ptr_miss[OF wf(2)] la2)
  have c1: "do_call ?t0 a = Some (Some 0, t1)"
    by (simp add: do_call_parsed[OF pa table_wf_new] l0 len t1_def sa_def)
  have c2: "do_call t1 b = Some (Some 1, t2)"
    by (simp add: do_call_parsed[OF pb wf(1)] lb1 len t2_def sb_def)
  have c3: "do_call t2 c = Some (Some 2, t3)"
    by (simp add: do_call_parsed[OF pc wf(2)] lc2 len t3_def sc_def)
  have c4: "do_call t3 a' = Some (Some 0, t4)"
    by (simp add: do_call_parsed[OF pa' wf(3)] la3 t4_def sa'_def)
  have r: "run ?t0 [a, b, c, a'] = Some t4"
    by (simp add: c1 c2 c3 c4)
  have l4: "list t4 = [0, 2, 1]"
    by (simp add: t4_def t3_def t2_def t1_def hit_table_def miss_table_def
        g_inet_flow_table_new_def)
  have o4: "map tuple (objs t4) = [tuple Ka, tuple Kb, tuple Kc]"
    by (simp add: t4_def t3_def t2_def t1_def hit_table_def miss_table_def
        g_inet_flow_table_new_def new_flow_def)
  have len4: "length (objs t4) = 3"
    using o4 by (metis length_map length_Cons list.size(3) numeral_3_eq_3)
  have m4: "map tuple (map ((!) (objs t4)) [0, 2, 1]) = [tuple Ka, tuple Kc, tuple Kb]"
  proof -
    have "tuple (objs t4 ! 0) = map tuple (objs t4) ! 0" "tuple (objs t4 ! 1) = map tuple (objs t4) ! 1"
      "tuple (objs t4 ! 2) = map tuple (objs t4) ! 2"
      using len4 by simp_all
    then show ?thesis by (simp add: o4)
  qed
  have scen: "\<exists>t. run ?t0 [a, b, c, a'] = Some t \<and> traversal t = [0, 2, 1]
            \<and> map tuple (map ((!) (objs t)) (traversal t)) = [tuple Ka, tuple Kc, tuple Kb]"
    using r l4 m4 by (simp add: traversal_list)
  have step: "(p < length (objs tbl) \<and> hits tbl' = hits tbl + 1
                 \<and> traversal tbl' = p # remove1 p (traversal tbl))
           \<or> (p = length (objs tbl) \<and> misses tbl' = misses tbl + 1
                 \<and> traversal tbl' = p # traversal tbl)"
    if "table_wf tbl" "do_call tbl call = Some (Some p, tbl')" for tbl call p tbl'
    using do_call_cases[OF that(2,1)]
    by (auto simp: traversal_list hit_table_def miss_table_def)
  show ?thesis using scen step by blast
qed

theorem recency_order_witness:
  "(\<exists>t. run g_inet_flow_table_new [ex_call 1 5, ex_call 3 5, ex_call 4 5, ex_call 1 5] = Some t
       \<and> traversal t = [0, 2, 1]
       \<and> map tuple (map ((!) (objs t)) (traversal t)) = [ex_tuple, ex_tuple_c, ex_tuple_b])
   \<and> parsed (ex_call 1 5) = Some (ex_packet 5) \<and> parsed (ex_call 3 5) = Some (ex_packet_b 5)
   \<and> parsed (ex_call 4 5) = Some (ex_packet_c 5)
   \<and> ex_tuple \<noteq> ex_tuple_b \<and> ex_tuple \<noteq> ex_tuple_c \<and> ex_tuple_b \<noteq> ex_tuple_c"
proof -
  have t: "tuple (ex_packet 5) = ex_tuple" "tuple (ex_packet_b 5) = ex_tuple_b"
    "tuple (ex_packet_c 5) = ex_tuple_c"
    by (simp_all add: ex_packet_def ex_packet_b_def ex_packet_c_def)
  have d: "tuple (ex_packet 5) \<noteq> tuple (ex_packet_b 5)"
    "tuple (ex_packet 5) \<noteq> tuple (ex_packet_c 5)"
    "tuple (ex_packet_b 5) \<noteq> tuple (ex_packet_c 5)"
    by (simp_all add: t ex_tuples_differ)
  note th = recency_order[OF ex_parsed ex_parsed_b ex_parsed_c d refl, THEN conjunct1]
  show ?thesis
    using th ex_tuples_differ by (simp add: t ex_parsed ex_parsed_b ex_parsed_c)
qed

lemma and_one_bit: "drop_bit n w AND 1 = of_bool (bit w n)" for w :: "'a::len word"
  by (simp add: and_one_eq mod_2_eq_odd bit_iff_odd_drop_bit)

lemma ucast_step:
  "(ucast ((push_bit k (ucast iv :: guint32) XOR c) AND 0xffff) :: guint16)
     = push_bit k iv XOR ucast c"
proof -
  have m: "(0xffff :: guint32) = mask 16" by (simp add: mask_eq_exp_minus_1)
  show ?thesis
    unfolding m by (rule bit_word_eqI) (auto simp: bit_simps)
qed

lemma crc16_step_eq: "crc16_step iv b j = crc_ccitt_bit iv (bit b j)"
proof -
  have c: "((drop_bit 15 (ucast iv :: guint32) AND 1) XOR (drop_bit j b AND 1)) \<noteq> 0
       \<longleftrightarrow> bit iv 15 \<noteq> bit b j"
    by (simp add: and_one_bit bit_simps)
  show ?thesis
    unfolding crc16_step_def c ucast_step by (simp add: crc_ccitt_bit_def)
qed

lemma crc16_bits_eq:
  "crc16_bits n b iv = foldl crc_ccitt_bit iv (map (bit b) (rev [0..<n]))"
  by (induction n arbitrary: iv) (simp_all add: crc16_step_eq)

lemma byte_bits:
  "map (bit (ucast (drop_bit (i * 8) p AND 0xff) :: guint32)) (rev [0..<8])
     = map (bit p) (rev [i * 8..<i * 8 + 8])" for p :: guint64
proof -
  have m: "(0xff :: guint64) = mask 8" by (simp add: mask_eq_exp_minus_1)
  have b: "bit (ucast (drop_bit (i * 8) p AND 0xff) :: guint32) j = bit p (i * 8 + j)"
    if "j < 8" for j
    using that unfolding m by (auto simp: bit_simps dest: bit_imp_le_length)
  have "map (bit (ucast (drop_bit (i * 8) p AND 0xff) :: guint32)) [0..<8]
     = map (\<lambda>j. bit p (i * 8 + j)) [0..<8]"
    by (rule map_cong) (simp_all add: b)
  also have "\<dots> = map (bit p) (map (\<lambda>j. i * 8 + j) [0..<8])" by (simp add: comp_def)
  also have "map (\<lambda>j. i * 8 + j) [0..<8] = [i * 8..<i * 8 + 8]"
    using map_add_upt[of "i * 8" 8] by (simp add: add.commute)
  finally have "rev (map (bit (ucast (drop_bit (i * 8) p AND 0xff) :: guint32)) [0..<8])
     = rev (map (bit p) [i * 8..<i * 8 + 8])" by (simp only:)
  then show ?thesis by (simp only: rev_map)
qed

lemma crc16_bytes_eq:
  "crc16_bytes n p iv = foldl crc_ccitt_bit iv (map (bit p) (rev [0..<n * 8]))"
proof (induction n arbitrary: iv)
  case 0
  then show ?case by simp
next
  case (Suc i)
  have "[0..<Suc i * 8] = [0..<i * 8] @ [i * 8..<i * 8 + 8]"
    using upt_add_eq_append[of 0 "i * 8" 8] by (simp add: add.commute)
  then have "rev [0..<Suc i * 8] = rev [i * 8..<i * 8 + 8] @ rev [0..<i * 8]"
    by (simp only: rev_append)
  then show ?case
    by (simp only: crc16_bytes.simps Suc.IH crc16_bits_eq byte_bits map_append foldl_append)
qed

lemma crc16_eq: "crc16 iv p = crc_ccitt iv (msb_first p)"
  by (simp add: crc16_def crc_ccitt_def msb_first_def crc16_bytes_eq)

lemma word_bits_cat:
  fixes p :: "'a::len word" and hi :: "'b::len word" and lo :: "'c::len word"
  assumes lo: "\<And>j. j < k \<Longrightarrow> bit p j = bit lo j"
      and hi: "\<And>j. j < m \<Longrightarrow> bit p (k + j) = bit hi j"
  shows "word_bits (k + m) p = word_bits m hi @ word_bits k lo"
proof -
  have "[0..<k + m] = [0..<k] @ [k..<k + m]"
    using upt_add_eq_append[of 0 k m] by simp
  moreover have "map (bit p) [0..<k] = map (bit lo) [0..<k]"
    by (rule map_cong) (simp_all add: lo)
  moreover have "map (bit p) [k..<k + m] = map (bit hi) [0..<m]"
  proof -
    have "[k..<k + m] = map (\<lambda>j. k + j) [0..<m]"
      using map_add_upt[of k m] by (simp add: add.commute)
    then have "map (bit p) [k..<k + m] = map (\<lambda>j. bit p (k + j)) [0..<m]"
      by (simp add: comp_def)
    also have "\<dots> = map (bit hi) [0..<m]"
      by (rule map_cong) (simp_all add: hi)
    finally show ?thesis .
  qed
  ultimately have "map (bit p) [0..<k + m] = map (bit lo) [0..<k] @ map (bit hi) [0..<m]"
    by simp
  then have "rev (map (bit p) [0..<k + m]) = rev (map (bit lo) [0..<k] @ map (bit hi) [0..<m])"
    by (simp only:)
  then show ?thesis
    by (simp only: word_bits_def rev_map rev_append)
qed

lemma word_bits_zero: "word_bits n (0 :: 'a::len word) = replicate n False"
proof -
  have "map (bit (0 :: 'a word)) xs = replicate (length xs) False" for xs :: "nat list"
    by (induction xs) simp_all
  then show ?thesis by (simp add: word_bits_def)
qed

lemma msb_first_pair:
  fixes a b :: guint32
  shows "msb_first (push_bit 32 (ucast a) OR ucast b) = word_bits 32 a @ word_bits 32 b"
proof -
  have "word_bits (32 + 32) (push_bit 32 (ucast a) OR ucast b :: guint64)
          = word_bits 32 a @ word_bits 32 b"
    by (rule word_bits_cat) (auto simp: bit_simps dest: bit_imp_le_length)
  then show ?thesis by (simp add: msb_first_def word_bits_def)
qed

lemma msb_first_port:
  fixes port :: guint16
  shows "msb_first (push_bit 48 (ucast port)) = word_bits 16 port @ replicate 48 False"
proof -
  have "word_bits (48 + 16) (push_bit 48 (ucast port) :: guint64)
          = word_bits 16 port @ word_bits 48 (0 :: guint64)"
    by (rule word_bits_cat) (auto simp: bit_simps dest: bit_imp_le_length)
  then have "word_bits 64 (push_bit 48 (ucast port) :: guint64)
          = word_bits 16 port @ replicate 48 False"
    by (simp add: word_bits_zero)
  then show ?thesis by (simp add: msb_first_def word_bits_def)
qed

lemma msb_first_protocol:
  fixes proto :: guint16
  shows "msb_first (push_bit 56 (ucast proto)) = word_bits 8 proto @ replicate 56 False"
proof -
  have "word_bits (56 + 8) (push_bit 56 (ucast proto) :: guint64)
          = word_bits 8 proto @ word_bits 56 (0 :: guint64)"
    by (rule word_bits_cat) (auto simp: bit_simps dest: bit_imp_le_length)
  then have "word_bits 64 (push_bit 56 (ucast proto) :: guint64)
          = word_bits 8 proto @ replicate 56 False"
    by (simp add: word_bits_zero)
  then show ?thesis by (simp add: msb_first_def word_bits_def)
qed

lemma crc_ccitt_append: "crc_ccitt (crc_ccitt r xs) ys = crc_ccitt r (xs @ ys)"
  by (simp add: crc_ccitt_def)

lemma tuple_hash_spec: "tuple_hash t = spec_hash t"
  unfolding tuple_hash_def spec_hash_def Let_def crc16_eq crc_ccitt_append
    msb_first_pair msb_first_port msb_first_protocol endpoint_message_def protocol_message_def
  by (simp only: append_assoc)

lemma ex_tuple_hash: "tuple_hash ex_tuple = 4113"
  by code_simp

lemma hash_persists:
  assumes "do_call tbl c = Some (r, tbl')" "table_wf tbl" "p < length (objs tbl)"
  shows "hash (objs tbl' ! p) = hash (objs tbl ! p)"
  using do_call_cases[OF assms(1,2)] assms(3) persist_hit[of _ tbl p] persist_miss[of p tbl]
  by auto

lemma hashes_cached_new: "hashes_cached g_inet_flow_table_new"
  by (simp add: hashes_cached_def table_wf_new) (simp add: g_inet_flow_table_new_def)

lemma hash_stamp: "hash (os[p := (os ! p)\<lparr>timestamp := st\<rparr>] ! q) = hash (os ! q)"
  by (cases "p < length os") (auto simp: nth_list_update list_update_beyond)

lemma hashes_cached_hit: "hashes_cached t \<Longrightarrow> hashes_cached (hit_table t p st)"
  by (simp add: hashes_cached_def table_wf_hit) (simp add: hit_table_def hash_stamp)

lemma hashes_cached_miss:
  assumes "hashes_cached t"
  shows "hashes_cached (miss_table t K st)"
proof -
  from assms have wf: "table_wf t"
    and c: "\<forall>n\<in>set (table t). fst n = real_hash (ucast (hash (objs t ! snd n)))"
    and r: "\<forall>n\<in>set (table t). snd n < length (objs t)"
    by (simp_all add: hashes_cached_def table_wf_def list_all_iff)
  have "\<forall>n\<in>set (table (miss_table t K st)).
          fst n = real_hash (ucast (hash (objs (miss_table t K st) ! snd n)))"
    using c r by (auto simp: miss_table_def nth_append new_flow_def lookup_key_def)
  then show ?thesis
    using table_wf_miss[OF wf, of K st] by (simp add: hashes_cached_def list_all_iff)
qed

lemma hashes_cached_step:
  assumes "do_call t c = Some (r, t')" "hashes_cached t"
  shows "hashes_cached t'"
proof -
  from assms(2) have wf: "table_wf t" by (simp add: hashes_cached_def)
  from do_call_cases[OF assms(1) wf] show ?thesis
    using assms(2) by (auto simp: hashes_cached_hit hashes_cached_miss)
qed

lemma hashes_cached_run: "run t cs = Some t' \<Longrightarrow> hashes_cached t \<Longrightarrow> hashes_cached t'"
proof (induction cs arbitrary: t)
  case Nil
  then show ?case by simp
next
  case (Cons c cs)
  then show ?case
    by (auto split: option.splits dest: hashes_cached_step)
qed

text \<open>
  C9.  With no cached hash, \<^verbatim>\<open>flow_hash\<close> computes and stores the exclusive or of three
  CRC-16 values (polynomial \<open>0x1021\<close>, register started at \<open>0xFFFF\<close> each time): over
  the lower address and port, over the upper address and port, and over the protocol
  byte, each padded with zero bits to a multiple of 64.  With a cached hash that is not
  zero it returns that hash and writes nothing.  Flows that \<^verbatim>\<open>flow_compare\<close> finds equal
  have the same computed hash.  No call changes the hash field of an object in the
  store, and in every table reached from a new one each node of the hash table is
  stored under the hash field of its record (0 and 1 replaced by 2), which is what later
  lookups are compared with.
\<close>

theorem flow_hash_is_crc_xor:
  "(hash f = 0 \<longrightarrow> flow_hash f = (spec_hash (tuple f), f\<lparr>hash := spec_hash (tuple f)\<rparr>))
   \<and> (hash f \<noteq> 0 \<longrightarrow> flow_hash f = (hash f, f))
   \<and> (flow_compare f1 f2 \<longrightarrow> spec_hash (tuple f1) = spec_hash (tuple f2)
         \<and> (hash f1 = hash f2 \<longrightarrow> fst (flow_hash f1) = fst (flow_hash f2)))
   \<and> (\<forall>tbl c r tbl' p. table_wf tbl \<longrightarrow> do_call tbl c = Some (r, tbl') \<longrightarrow>
         p < length (objs tbl) \<longrightarrow> hash (objs tbl' ! p) = hash (objs tbl ! p))
   \<and> (\<forall>cs tbl. run g_inet_flow_table_new cs = Some tbl \<longrightarrow>
         (\<forall>n\<in>set (table tbl). fst n = real_hash (ucast (hash (objs tbl ! snd n)))))"
proof -
  have a: "hash f = 0 \<longrightarrow> flow_hash f = (spec_hash (tuple f), f\<lparr>hash := spec_hash (tuple f)\<rparr>)"
    by (simp add: flow_hash_def tuple_hash_spec)
  have b: "hash f \<noteq> 0 \<longrightarrow> flow_hash f = (hash f, f)"
    by (simp add: flow_hash_def)
  have c: "flow_compare f1 f2 \<longrightarrow> spec_hash (tuple f1) = spec_hash (tuple f2)
         \<and> (hash f1 = hash f2 \<longrightarrow> fst (flow_hash f1) = fst (flow_hash f2))"
    by (simp add: flow_compare_iff flow_hash_def)
  have d: "\<forall>n\<in>set (table tbl). fst n = real_hash (ucast (hash (objs tbl ! snd n)))"
    if "run g_inet_flow_table_new cs = Some tbl" for cs tbl
    using hashes_cached_run[OF that hashes_cached_new]
    by (simp add: hashes_cached_def list_all_iff)
  show ?thesis using a b c d hash_persists by blast
qed

theorem flow_hash_is_crc_xor_witness:
  "flow_hash (ex_packet 0) = (4113, ex_packet 4113)
   \<and> spec_hash ex_tuple = 4113
   \<and> flow_hash (ex_packet 5) = (5, ex_packet 5)
   \<and> flow_compare (ex_packet 0) (ex_packet 5)
   \<and> spec_hash (tuple (ex_packet 0)) = spec_hash (tuple (ex_packet 5))"
proof -
  have h: "hash (ex_packet 0) = 0" "hash (ex_packet 5) = 5" "tuple (ex_packet 0) = ex_tuple"
    "(ex_packet 0)\<lparr>hash := 4113\<rparr> = ex_packet 4113"
    by (simp_all add: ex_packet_def)
  have s: "spec_hash ex_tuple = 4113"
    using ex_tuple_hash by (simp add: tuple_hash_spec)
  have fc: "flow_compare (ex_packet 0) (ex_packet 5)"
    by (simp add: flow_compare_iff ex_packet_def)
  note th0 = flow_hash_is_crc_xor[of "ex_packet 0" "ex_packet 0" "ex_packet 5"]
  note th5 = flow_hash_is_crc_xor[of "ex_packet 5" "ex_packet 0" "ex_packet 5"]
  from th0 h s have a: "flow_hash (ex_packet 0) = (4113, ex_packet 4113)" by simp
  from th5 h have b: "flow_hash (ex_packet 5) = (5, ex_packet 5)" by simp
  from th0 fc have c: "spec_hash (tuple (ex_packet 0)) = spec_hash (tuple (ex_packet 5))"
    by blast
  show ?thesis by (intro conjI a s b fc c)
qed

section \<open>Rejected frames leave the table alone\<close>

lemma ethertype_bytes:
  fixes b0 b1 :: guint8
  shows "GUINT16_FROM_BE (ucast b0 OR push_bit 8 (ucast b1)) = ETH_PROTOCOL_IP
           \<longleftrightarrow> b0 = 8 \<and> b1 = 0"
proof -
  let ?x = "ucast b0 OR push_bit 8 (ucast b1) :: guint16"
  have lo: "(ucast ?x :: guint8) = b0"
    by (rule bit_word_eqI) (auto simp: bit_simps)
  have hi: "(ucast (drop_bit 8 ?x) :: guint8) = b1"
    by (rule bit_word_eqI) (auto simp: bit_simps dest: bit_imp_le_length)
  have "GUINT16_FROM_BE ?x = ETH_PROTOCOL_IP \<longleftrightarrow> ?x = GUINT16_FROM_BE ETH_PROTOCOL_IP"
    by (metis GUINT16_FROM_BE_inv)
  also have "GUINT16_FROM_BE ETH_PROTOCOL_IP = 8"
    by (simp add: GUINT16_FROM_BE_def ETH_PROTOCOL_IP_def)
  also have "?x = 8 \<longleftrightarrow> b0 = 8 \<and> b1 = 0"
  proof
    assume e: "?x = 8"
    have "b0 = ucast ?x" by (simp only: lo)
    also have "\<dots> = ucast (8 :: guint16)" by (simp only: e)
    finally have b0: "b0 = 8" by simp
    have "b1 = ucast (drop_bit 8 ?x)" by (simp only: hi)
    also have "\<dots> = ucast (drop_bit 8 (8 :: guint16))" by (simp only: e)
    finally have b1: "b1 = 0" by simp
    from b0 b1 show "b0 = 8 \<and> b1 = 0" by simp
  next
    assume "b0 = 8 \<and> b1 = 0"
    then show "?x = 8" by simp
  qed
  finally show ?thesis .
qed

lemma flow_parse_rejects:
  assumes len: "14 \<le> unat len" and buf: "unat len \<le> length frame"
      and bad: "frame ! 12 \<noteq> 8 \<or> frame ! 13 \<noteq> 0 \<or> unat len < 34
                \<or> frame ! 23 \<noteq> IP_PROTOCOL_TCP \<or> unat len < 54"
  shows "\<exists>g. flow_parse f frame len hsh = Some (False, g)"
proof -
  have r: "rd16 frame 12 = Some (ucast (frame ! 12) OR push_bit 8 (ucast (frame ! 13)))"
    using len buf by (simp add: rd16_def rd8_def)
  show ?thesis
  proof (cases "frame ! 12 = 8 \<and> frame ! 13 = 0")
    case False
    then have "GUINT16_FROM_BE (ucast (frame ! 12) OR push_bit 8 (ucast (frame ! 13)))
                 \<noteq> ETH_PROTOCOL_IP"
      by (simp only: ethertype_bytes not_False_eq_True)
    then show ?thesis
      by (simp add: flow_parse_def r)
  next
    case eth: True
    then have "GUINT16_FROM_BE (ucast (frame ! 12) OR push_bit 8 (ucast (frame ! 13)))
                 = ETH_PROTOCOL_IP"
      by (simp only: ethertype_bytes)
    then have ip: "flow_parse f frame len hsh =
        flow_parse_ipv4 (f\<lparr>family := G_SOCKET_FAMILY_IPV4, hash := hsh\<rparr>) (drop 14 frame) (len - 14)"
      by (simp add: flow_parse_def r sizeofs)
    show ?thesis
    proof (cases "unat len < 34")
      case True
      then have "len - 14 < 20"
        using len unat_len_sub(1)[of len] by (simp add: word_less_nat_alt)
      then show ?thesis by (simp add: ip flow_parse_ipv4_def sizeofs)
    next
      case False
      then have l34: "34 \<le> unat len" "34 \<le> length frame" "\<not> len - 14 < 20"
        using buf unat_len_sub(1)[of len] by (simp_all add: word_less_nat_alt)
      have l54: "len - 34 < 20 \<longleftrightarrow> unat len < 54"
        using l34(1) unat_len_sub(2)[of len] by (auto simp: word_less_nat_alt)
      from bad eth False have "frame ! 23 \<noteq> IP_PROTOCOL_TCP \<or> unat len < 54" by simp
      then show ?thesis
        using l34 l54
        by (auto simp: ip flow_parse_ipv4_def flow_parse_tcp_def rd32_def rd8_def sizeofs Let_def)
    qed
  qed
qed

text \<open>
  When the parser rejects a frame (it returns \<^verbatim>\<open>FALSE\<close>), \<^verbatim>\<open>g_inet_flow_get_full\<close>
  returns \<^verbatim>\<open>NULL\<close> and the table after the call is the table before it: store, hash
  table, recency list and both counters.  A frame of at least 14 bytes that lies in
  its buffer is rejected in this way whenever its ethertype is not \<open>0x0800\<close>, it ends
  inside the IPv4 header, its IPv4 protocol is not TCP, or it ends inside the TCP
  header.
\<close>

lemma rejected_frame_leaves_table:
  "(flow_parse zero_flow frame len hsh = Some (False, g) \<longrightarrow>
      g_inet_flow_get_full tbl frame len hsh ts now = Some (None, tbl))
   \<and> (14 \<le> unat len \<longrightarrow> unat len \<le> length frame \<longrightarrow>
        frame ! 12 \<noteq> 8 \<or> frame ! 13 \<noteq> 0 \<or> unat len < 34
          \<or> frame ! 23 \<noteq> IP_PROTOCOL_TCP \<or> unat len < 54 \<longrightarrow>
        g_inet_flow_get_full tbl frame len hsh ts now = Some (None, tbl))"
proof -
  have a: "g_inet_flow_get_full tbl frame len hsh ts now = Some (None, tbl)"
    if "flow_parse zero_flow frame len hsh = Some (False, g')" for g'
    using that by (simp add: g_inet_flow_get_full_def)
  show ?thesis
    using a flow_parse_rejects[of len frame zero_flow hsh] by blast
qed

lemma rejected_frame_leaves_table_example:
  "map_option fst (flow_parse zero_flow ex_udp_frame 54 0) = Some False
   \<and> 14 \<le> unat (54 :: guint32) \<and> unat (54 :: guint32) \<le> length ex_udp_frame
   \<and> ex_udp_frame ! 23 \<noteq> IP_PROTOCOL_TCP
   \<and> g_inet_flow_get_full g_inet_flow_table_new ex_udp_frame 54 0 0 1000
     = Some (None, g_inet_flow_table_new)"
proof -
  obtain g where p: "flow_parse zero_flow ex_udp_frame 54 0 = Some (False, g)"
    by (simp add: ex_defs parse_defs)
  have c: "14 \<le> unat (54 :: guint32)" "unat (54 :: guint32) \<le> length ex_udp_frame"
    "ex_udp_frame ! 23 \<noteq> IP_PROTOCOL_TCP"
    by (simp_all add: ex_defs IP_PROTOCOL_TCP_def)
  note th = rejected_frame_leaves_table[of ex_udp_frame 54 0 g g_inet_flow_table_new 0 1000]
  from th p have "g_inet_flow_get_full g_inet_flow_table_new ex_udp_frame 54 0 0 1000
     = Some (None, g_inet_flow_table_new)" by blast
  with p c show ?thesis by simp
qed

text \<open>
  C6.  A frame cut short inside the Ethernet header is not rejected, so the claim that
  every truncated frame leaves the table alone fails there.  \<^verbatim>\<open>flow_parse\<close> does not
  compare the length with the 14 bytes of the Ethernet header before it subtracts
  them; with length 13 or length 0 on a buffer that holds a TCP frame the call returns
  a record, and the table that was empty has one object, one node, one list entry and
  \<open>misses = 1\<close>.
\<close>

theorem truncated_frame_changes_table:
  "unat (13 :: guint32) < sizeof_ethernet_hdr_t
   \<and> g_inet_flow_get_full g_inet_flow_table_new (ex_frame 1) 13 5 0 1000
        = Some (Some 0, miss_table g_inet_flow_table_new (ex_packet 5) 1000)
   \<and> g_inet_flow_get_full g_inet_flow_table_new (ex_frame 1) 0 5 0 1000
        = Some (Some 0, miss_table g_inet_flow_table_new (ex_packet 5) 1000)
   \<and> miss_table g_inet_flow_table_new (ex_packet 5) 1000
        = \<lparr>objs = [(ex_packet 5)\<lparr>timestamp := 1000\<rparr>], table = [(5, 0)], list = [0],
            hits = 0, misses = 1\<rparr>
   \<and> g_inet_flow_table_get_property (miss_table g_inet_flow_table_new (ex_packet 5) 1000)
        TABLE_SIZE = GUInt64 1
   \<and> g_inet_flow_table_get_property (miss_table g_inet_flow_table_new (ex_packet 5) 1000)
        TABLE_MISSES = GUInt64 1
   \<and> g_inet_flow_table_get_property g_inet_flow_table_new TABLE_SIZE = GUInt64 0
   \<and> g_inet_flow_table_get_property g_inet_flow_table_new TABLE_MISSES = GUInt64 0"
proof -
  let ?t = "miss_table g_inet_flow_table_new (ex_packet 5) 1000"
  have p13: "flow_parse zero_flow (ex_frame 1) 13 5 = Some (True, ex_packet 5)"
    by (simp add: ex_defs parse_defs ex_packet_def ex_tuple_def)
  have p0: "flow_parse zero_flow (ex_frame 1) 0 5 = Some (True, ex_packet 5)"
    by (simp add: ex_defs parse_defs ex_packet_def ex_tuple_def)
  have none: "lookup_ptr g_inet_flow_table_new (ex_packet 5) = None"
    by (simp add: lookup_ptr_def g_inet_flow_table_new_def)
  have st: "stamp_of 0 1000 = 1000" by (simp add: stamp_of_def)
  have l: "length (objs g_inet_flow_table_new) = 0" by (simp add: g_inet_flow_table_new_def)
  have c13: "g_inet_flow_get_full g_inet_flow_table_new (ex_frame 1) 13 5 0 1000 = Some (Some 0, ?t)"
    by (simp add: get_full_eq[OF p13 table_wf_new] none st l)
  have c0: "g_inet_flow_get_full g_inet_flow_table_new (ex_frame 1) 0 5 0 1000 = Some (Some 0, ?t)"
    by (simp add: get_full_eq[OF p0 table_wf_new] none st l)
  have k: "lookup_key (ex_packet 5) = (5, ex_tuple)"
    by (simp add: lookup_key_def flow_hash_def ex_packet_def real_hash_def)
  have t: "?t = \<lparr>objs = [(ex_packet 5)\<lparr>timestamp := 1000\<rparr>], table = [(5, 0)], list = [0],
            hits = 0, misses = 1\<rparr>"
    by (simp add: miss_table_def g_inet_flow_table_new_def new_flow_def k)
       (simp add: flow_hash_def ex_packet_def zero_flow_def)
  have s: "unat (13 :: guint32) < sizeof_ethernet_hdr_t" by (simp add: sizeofs)
  have props: "g_inet_flow_table_get_property ?t TABLE_SIZE = GUInt64 1"
    "g_inet_flow_table_get_property ?t TABLE_MISSES = GUInt64 1"
    by (simp_all add: t g_inet_flow_table_get_property_def TABLE_SIZE_def TABLE_MISSES_def
        TABLE_HITS_def g_hash_table_size_def)
  have props0: "g_inet_flow_table_get_property g_inet_flow_table_new TABLE_SIZE = GUInt64 0"
    "g_inet_flow_table_get_property g_inet_flow_table_new TABLE_MISSES = GUInt64 0"
    by (simp_all add: g_inet_flow_table_get_property_def TABLE_SIZE_def TABLE_MISSES_def
        TABLE_HITS_def g_hash_table_size_def g_inet_flow_table_new_def)
  show ?thesis by (intro conjI s c13 c0 t props props0)
qed

end
